theory Spec2Isabelle
  imports Complex_Main "HOL-Library.Sublist"
begin

section \<open>Text primitives\<close>

text \<open>
  A Python \<open>str\<close> is a sequence of code points. It is modelled as a \<^typ>\<open>string\<close>, so a
  character is a code point in the range 0..255 (ASCII and Latin-1); the functions below
  give Python's behaviour on exactly these code points.
\<close>

text \<open>The exceptions that the modelled functions can raise.\<close>

datatype error = ValueError | KeyError | AttributeError

definition code :: "char \<Rightarrow> nat" where
  "code c = of_char c"

text \<open>\<open>str.isspace\<close> on one character: the white space of Unicode below 256.\<close>

definition isspace :: "char \<Rightarrow> bool" where
  "isspace c = ((9 \<le> code c \<and> code c \<le> 13) \<or> (28 \<le> code c \<and> code c \<le> 32)
     \<or> code c = 133 \<or> code c = 160)"

text \<open>\<open>str.isdigit\<close> as the regular expression class \<open>\d\<close> sees it: the ten ASCII digits.\<close>

definition isdigit :: "char \<Rightarrow> bool" where
  "isdigit c = (48 \<le> code c \<and> code c \<le> 57)"

text \<open>\<open>str.lower\<close>: A-Z and the upper-case letters of Latin-1 move up by 32.\<close>

definition lower_char :: "char \<Rightarrow> char" where
  "lower_char c = (if (65 \<le> code c \<and> code c \<le> 90) \<or> (192 \<le> code c \<and> code c \<le> 222 \<and> code c \<noteq> 215)
     then char_of (code c + 32) else c)"

definition lower :: "string \<Rightarrow> string" where
  "lower s = map lower_char s"

text \<open>\<open>s.startswith(p)\<close>.\<close>

fun startswith :: "string \<Rightarrow> string \<Rightarrow> bool" where
  "startswith s [] = True"
| "startswith [] (p # ps) = False"
| "startswith (c # cs) (p # ps) = (c = p \<and> startswith cs ps)"

text \<open>\<open>sub in s\<close> for strings: \<open>sub\<close> occurs as a contiguous run of \<open>s\<close>.\<close>

fun contains :: "string \<Rightarrow> string \<Rightarrow> bool" where
  "contains [] sub = (sub = [])"
| "contains (c # cs) sub = (startswith (c # cs) sub \<or> contains cs sub)"

text \<open>
  \<open>s.count(sub)\<close>: the number of non-overlapping occurrences, scanning from the left;
  after an occurrence the scan resumes behind it. For the empty \<open>sub\<close> Python answers
  \<open>len(s) + 1\<close>.
\<close>

function count :: "string \<Rightarrow> string \<Rightarrow> nat" where
  "count [] sub = (if sub = [] then 1 else 0)"
| "count (c # cs) sub =
     (if sub = [] then 1 + count cs sub
      else if startswith (c # cs) sub then 1 + count (drop (length sub) (c # cs)) sub
      else count cs sub)"
  by pat_completeness auto
termination
  by (relation "measure (\<lambda>(s, sub). length s)") auto

text \<open>\<open>s.strip()\<close>: white space removed at both ends.\<close>

definition lstrip :: "string \<Rightarrow> string" where
  "lstrip s = dropWhile isspace s"

definition rstrip :: "string \<Rightarrow> string" where
  "rstrip s = rev (dropWhile isspace (rev s))"

definition strip :: "string \<Rightarrow> string" where
  "strip s = rstrip (lstrip s)"

text \<open>
  \<open>s.split(sep)\<close> for a non-empty separator: the pieces between the non-overlapping
  occurrences of \<open>sep\<close>, found from the left. The result is never empty. The first argument
  collects the current piece in reverse.
\<close>

function split_acc :: "string \<Rightarrow> string \<Rightarrow> string \<Rightarrow> string list" where
  "split_acc acc [] sep = [rev acc]"
| "split_acc acc (c # cs) sep =
     (if sep \<noteq> [] \<and> startswith (c # cs) sep
      then rev acc # split_acc [] (drop (length sep) (c # cs)) sep
      else split_acc (c # acc) cs sep)"
  by pat_completeness auto
termination
  by (relation "measure (\<lambda>(acc, s, sep). length s)") auto

definition split :: "string \<Rightarrow> string \<Rightarrow> string list" where
  "split s sep = split_acc [] s sep"

section \<open>Domain classification\<close>

text \<open>The lexicon of \<open>MasterAgent._infer_domain\<close>, in the order of the dictionary literal.\<close>

definition domain_keywords :: "(string \<times> string list) list" where
  "domain_keywords =
    [(''education'', [''learn'', ''student'', ''course'', ''teach'', ''education'']),
     (''healthcare'', [''health'', ''medical'', ''patient'', ''clinical'', ''hospital'']),
     (''finance'', [''financial'', ''banking'', ''payment'', ''transaction'', ''trading'']),
     (''ecommerce'', [''shop'', ''product'', ''cart'', ''checkout'', ''order'']),
     (''social'', [''social'', ''community'', ''connect'', ''share'', ''network'']),
     (''iot'', [''device'', ''sensor'', ''embedded'', ''hardware'', ''iot'']),
     (''enterprise'', [''business'', ''enterprise'', ''organization'', ''workflow'']),
     (''gaming'', [''game'', ''player'', ''level'', ''score'', ''gameplay'']),
     (''media'', [''content'', ''video'', ''stream'', ''media'', ''publish''])]"

text \<open>\<open>sum(content_lower.count(kw) for kw in keywords)\<close>.\<close>

definition keyword_score :: "string \<Rightarrow> string list \<Rightarrow> nat" where
  "keyword_score content_lower keywords = sum_list (map (count content_lower) keywords)"

text \<open>
  \<open>max(items, key=...)\<close>: the first item whose key is maximal; a later item replaces the
  current best only when its key is strictly greater. On an empty sequence Python raises
  \<open>ValueError\<close>.
\<close>

fun max_from :: "('a \<Rightarrow> nat) \<Rightarrow> 'a \<Rightarrow> 'a list \<Rightarrow> 'a" where
  "max_from key best [] = best"
| "max_from key best (x # xs) = max_from key (if key best < key x then x else best) xs"

definition max_by :: "('a \<Rightarrow> nat) \<Rightarrow> 'a list \<Rightarrow> error + 'a" where
  "max_by key xs = (case xs of [] \<Rightarrow> Inl ValueError | x # rest \<Rightarrow> Inr (max_from key x rest))"

definition domain_scores :: "string \<Rightarrow> (string \<times> nat) list" where
  "domain_scores content =
     map (\<lambda>(domain, keywords). (domain, keyword_score (lower content) keywords)) domain_keywords"

definition infer_domain :: "string \<Rightarrow> error + string" where
  "infer_domain content =
     (case max_by snd (domain_scores content) of
        Inl e \<Rightarrow> Inl e
      | Inr top_domain \<Rightarrow> Inr (if snd top_domain > 0 then fst top_domain else ''general''))"

section \<open>Values\<close>

definition value_keywords :: "string list" where
  "value_keywords = [''simple'', ''secure'', ''reliable'', ''fast'', ''accessible'',
     ''private'', ''open'', ''transparent'', ''scalable'', ''resilient'']"

text \<open>\<open>MasterAgent._extract_values\<close>.\<close>

definition extract_values :: "string \<Rightarrow> string list" where
  "extract_values content = take 7 (filter (\<lambda>v. contains (lower content) v) value_keywords)"

section \<open>Regular expressions\<close>

text \<open>
  The fragment of Python's \<open>re\<close> that the extractors use: character classes, a class
  repeated (greedy or lazy), sequence, alternation, capturing groups, positive lookahead,
  \<open>^\<close> (without MULTILINE: the start of the text) and \<open>\Z\<close> (the end of the text).
\<close>

datatype rx =
    Cls "char \<Rightarrow> bool"
  | Rep "char \<Rightarrow> bool" nat "nat option" bool
  | Cat rx rx
  | Alt rx rx
  | Grp nat rx
  | Ahead rx
  | Bos
  | Eos
  | Eps

text \<open>
  A matcher state: the number of characters before the current position, the text from
  the current position on, and the groups captured so far (latest first).
\<close>

type_synonym mstate = "nat \<times> string \<times> (nat \<times> string) list"

text \<open>
  All ways to match a pattern from a state, in the order in which the backtracking
  matcher of \<open>re\<close> tries them: a greedy repetition tries the longest run first, a lazy one
  the shortest; an alternation tries its left branch first; a lookahead succeeds once,
  consumes nothing and keeps the groups of its first match.
\<close>

fun rx_run :: "rx \<Rightarrow> mstate \<Rightarrow> mstate list" where
  "rx_run (Cls P) (n, s, g) =
     (case s of [] \<Rightarrow> [] | c # cs \<Rightarrow> if P c then [(Suc n, cs, g)] else [])"
| "rx_run (Rep P lo hi greedy) (n, s, g) =
     (let m = length (takeWhile P s);
          top = (case hi of None \<Rightarrow> m | Some h \<Rightarrow> min m h);
          ks = [lo ..< Suc top]
      in map (\<lambda>k. (n + k, drop k s, g)) (if greedy then rev ks else ks))"
| "rx_run (Cat a b) st = concat (map (rx_run b) (rx_run a st))"
| "rx_run (Alt a b) st = rx_run a st @ rx_run b st"
| "rx_run (Grp i a) (n, s, g) =
     map (\<lambda>(n', s', g'). (n', s', (i, take (n' - n) s) # g')) (rx_run a (n, s, g))"
| "rx_run (Ahead a) (n, s, g) =
     (case rx_run a (n, s, g) of [] \<Rightarrow> [] | (n', s', g') # _ \<Rightarrow> [(n, s, g')])"
| "rx_run Bos (n, s, g) = (if n = 0 then [(n, s, g)] else [])"
| "rx_run Eos (n, s, g) = (if s = [] then [(n, s, g)] else [])"
| "rx_run Eps st = [st]"

definition seq :: "rx list \<Rightarrow> rx" where
  "seq rs = foldr Cat rs Eps"

text \<open>A literal text, and a literal text under IGNORECASE.\<close>

definition lit :: "string \<Rightarrow> rx" where
  "lit w = seq (map (\<lambda>c. Cls (\<lambda>d. d = c)) w)"

definition lit_i :: "string \<Rightarrow> rx" where
  "lit_i w = seq (map (\<lambda>c. Cls (\<lambda>d. lower_char d = lower_char c)) w)"

text \<open>A match object: where the match starts, and the state behind it.\<close>

type_synonym match = "nat \<times> mstate"

definition group :: "match \<Rightarrow> nat \<Rightarrow> string option" where
  "group m i = map_of (snd (snd (snd m))) i"

text \<open>\<open>re.match\<close>: a match at the start of the text only.\<close>

definition re_match :: "rx \<Rightarrow> string \<Rightarrow> match option" where
  "re_match p s = (case rx_run p (0, s, []) of [] \<Rightarrow> None | r # _ \<Rightarrow> Some (0, r))"

text \<open>\<open>re.search\<close>: the first position, from the left, at which the pattern matches.\<close>

fun search_from :: "rx \<Rightarrow> nat \<Rightarrow> string \<Rightarrow> match option" where
  "search_from p n [] = (case rx_run p (n, [], []) of [] \<Rightarrow> None | r # _ \<Rightarrow> Some (n, r))"
| "search_from p n (c # cs) =
     (case rx_run p (n, c # cs, []) of [] \<Rightarrow> search_from p (Suc n) cs | r # _ \<Rightarrow> Some (n, r))"

definition re_search :: "rx \<Rightarrow> string \<Rightarrow> match option" where
  "re_search p s = search_from p 0 s"

text \<open>
  \<open>re.sub(p, '', s)\<close>: every non-overlapping match of \<open>p\<close>, found from the left, is
  removed. \<open>skip\<close> counts the characters of the current match still to be dropped; a
  match of length 0 removes nothing and the character at its position is kept.
\<close>

fun sub_from :: "rx \<Rightarrow> nat \<Rightarrow> nat \<Rightarrow> string \<Rightarrow> string" where
  "sub_from p n skip [] = []"
| "sub_from p n (Suc skip) (c # cs) = sub_from p (Suc n) skip cs"
| "sub_from p n 0 (c # cs) =
     (case rx_run p (n, c # cs, []) of
        [] \<Rightarrow> c # sub_from p (Suc n) 0 cs
      | (n', s', g') # _ \<Rightarrow>
          if n' = n then c # sub_from p (Suc n) 0 cs else sub_from p (Suc n) (n' - Suc n) cs)"

definition re_sub_empty :: "rx \<Rightarrow> string \<Rightarrow> string" where
  "re_sub_empty p s = sub_from p 0 0 s"

definition is_hash :: "char \<Rightarrow> bool" where
  "is_hash c = (c = CHR ''#'')"

definition is_nl :: "char \<Rightarrow> bool" where
  "is_nl c = (c = CHR ''\<newline>'')"

definition any_char :: "char \<Rightarrow> bool" where
  "any_char c = True"

section \<open>Mission\<close>

text \<open>
  The three patterns of \<open>MasterAgent._extract_mission\<close>, compiled with DOTALL and
  IGNORECASE: \<^verbatim>\<open>#{1,3}\s+Mission.*?\n+(.*?)(?=\n#{1,3}|\Z)\<close> and the same with
  \<open>Purpose\<close> and \<open>Overview\<close>.
\<close>

definition heading_rx :: "string \<Rightarrow> rx" where
  "heading_rx label = seq
     [Rep is_hash 1 (Some 3) True, Rep isspace 1 None True, lit_i label,
      Rep any_char 0 None False, Rep is_nl 1 None True,
      Grp 1 (Rep any_char 0 None False),
      Ahead (Alt (seq [Cls is_nl, Rep is_hash 1 (Some 3) True]) Eos)]"

text \<open>
  The loop over the patterns: the first pattern that matches decides. \<open>match.group(1)\<close> is
  \<open>None\<close> for a group that took no part in the match, and \<open>None.strip()\<close> raises.
\<close>

fun mission_from :: "string list \<Rightarrow> string \<Rightarrow> (error + string) option" where
  "mission_from [] content = None"
| "mission_from (label # labels) content =
     (case re_search (heading_rx label) content of
        None \<Rightarrow> mission_from labels content
      | Some m \<Rightarrow>
          (case group m 1 of
             None \<Rightarrow> Some (Inl AttributeError)
           | Some body \<Rightarrow> Some (Inr (take 500 (strip body)))))"

definition extract_mission :: "string \<Rightarrow> error + string" where
  "extract_mission content =
     (case mission_from [''Mission'', ''Purpose'', ''Overview''] content of
        Some r \<Rightarrow> r
      | None \<Rightarrow>
          (case split content ''\<newline>\<newline>'' of
             [] \<Rightarrow> Inr ''Mission not specified''
           | p # _ \<Rightarrow> Inr (take 500 (strip p))))"

section \<open>Sections by heading\<close>

text \<open>
  \<open>VisionTaskExtractor._extract_section\<close> builds its pattern with an f-string:
  \<^verbatim>\<open>rf'#{1,3}\s+{re.escape(heading)}.*?\n(.*?)(?=\n#{1,3}\s+|\Z)'\<close>.
  In an f-string \<^verbatim>\<open>{1,3}\<close> is a replacement field: the tuple \<open>(1, 3)\<close> is
  formatted into the text. The pattern that is compiled is therefore
  \<^verbatim>\<open>#(1, 3)\s+HEADING.*?\n(.*?)(?=\n#(1, 3)\s+|\Z)\<close>, where \<^verbatim>\<open>(1, 3)\<close> is a
  capturing group around the literal text \<^verbatim>\<open>1, 3\<close>: it is group 1, the body is
  group 2. \<open>re.escape\<close> makes the heading a literal. The flags are DOTALL only.
\<close>

definition section_rx :: "string \<Rightarrow> rx" where
  "section_rx heading = seq
     [Cls is_hash, Grp 1 (lit ''1, 3''), Rep isspace 1 None True, lit heading,
      Rep any_char 0 None False, Cls is_nl,
      Grp 2 (Rep any_char 0 None False),
      Ahead (Alt (seq [Cls is_nl, Cls is_hash, Grp 3 (lit ''1, 3''), Rep isspace 1 None True]) Eos)]"

definition extract_section :: "string \<Rightarrow> string \<Rightarrow> error + string" where
  "extract_section content heading =
     (case re_search (section_rx heading) content of
        None \<Rightarrow> Inr []
      | Some m \<Rightarrow> (case group m 1 of None \<Rightarrow> Inl AttributeError | Some t \<Rightarrow> Inr (strip t)))"

section \<open>List items\<close>

text \<open>
  \<open>MasterAgent._extract_list_items\<close>, on texts over the code points 0..255. The bullet
  glyph of the source file is stored as the three characters U+201A, U+00C4, U+00A2. As a
  prefix for \<open>startswith\<close> it needs U+201A, which no text of the model contains, so that
  alternative never holds here; in the character class of the pattern the two members
  below 256 remain. On a text with a character above 255 the source may do more than these
  definitions say: a line that begins with the three stored characters is taken as a list
  line, and U+201A at its start is removed by the pattern. The properties below are
  therefore properties of the function on texts over 0..255 only.
\<close>

definition bullet_class :: "char \<Rightarrow> bool" where
  "bullet_class c = (c = CHR ''-'' \<or> c = CHR ''*'' \<or> c = CHR 0xC4 \<or> c = CHR 0xA2)"

definition is_dot :: "char \<Rightarrow> bool" where
  "is_dot c = (c = CHR ''.'')"

text \<open>\<^verbatim>\<open>^\d+\.\<close>\<close>

definition ordinal_rx :: rx where
  "ordinal_rx = seq [Bos, Rep isdigit 1 None True, Cls is_dot]"

text \<open>\<^verbatim>\<open>^[-*...]\s*|\d+\.\s*\<close>: the \<open>^\<close> belongs to the left branch only.\<close>

definition marker_rx :: rx where
  "marker_rx = Alt (seq [Bos, Cls bullet_class, Rep isspace 0 None True])
                   (seq [Rep isdigit 1 None True, Cls is_dot, Rep isspace 0 None True])"

definition is_list_line :: "string \<Rightarrow> bool" where
  "is_list_line line =
     (startswith line ''-'' \<or> startswith line ''*'' \<or> re_match ordinal_rx line \<noteq> None)"

definition line_items :: "string \<Rightarrow> string list" where
  "line_items raw =
     (let line = strip raw in
      if is_list_line line
      then (let item = re_sub_empty marker_rx line in
            if item \<noteq> [] \<and> length item > 5 then [item] else [])
      else [])"

definition extract_list_items :: "string \<Rightarrow> string list" where
  "extract_list_items content = concat (map line_items (split content ''\<newline>''))"

text \<open>A pattern binds group \<open>i\<close> when every match of it has captured that group.\<close>

fun binds :: "nat \<Rightarrow> rx \<Rightarrow> bool" where
  "binds i (Grp j a) = (i = j \<or> binds i a)"
| "binds i (Cat a b) = (binds i a \<or> binds i b)"
| "binds i (Alt a b) = (binds i a \<and> binds i b)"
| "binds i (Ahead a) = binds i a"
| "binds i _ = False"

section \<open>Vision profile\<close>

text \<open>
  The dictionary that \<open>MasterAgent.interpret_vision\<close> builds and stores in
  \<open>self.vision_data\<close>; the derivations below read it. The key \<open>goals\<close> holds the two lists
  \<open>short_term\<close> and \<open>long_term\<close>; the key \<open>values\<close> is the field \<open>vision_values\<close>.
\<close>

record vision_profile =
  mission :: string
  principles :: "string list"
  short_term :: "string list"
  long_term :: "string list"
  constraints :: "string list"
  success_criteria :: "string list"
  domain :: string
  stakeholders :: "string list"
  vision_values :: "string list"
  architecture_hints :: "string list"

section \<open>Printing a list of strings\<close>

text \<open>
  \<open>str(xs)\<close> for a list of strings is \<open>[\<close>, the \<open>repr\<close> of the elements separated by a
  comma and a space, and \<open>]\<close>. \<open>repr\<close> of a string puts it in single quotes, or in double
  quotes when it contains a single quote and no double quote; it escapes the backslash and
  the quote in use, writes tab, line feed and carriage return as \<open>\t\<close>, \<open>\n\<close>, \<open>\r\<close>, and every
  other character that is not printable as \<open>\x\<close> and two hexadecimal digits.
\<close>

definition printable :: "char \<Rightarrow> bool" where
  "printable c = ((32 \<le> code c \<and> code c < 127) \<or> (161 \<le> code c \<and> code c \<noteq> 173))"

definition hexdigit :: "nat \<Rightarrow> char" where
  "hexdigit k = ''0123456789abcdef'' ! (k mod 16)"

definition repr_char :: "char \<Rightarrow> char \<Rightarrow> string" where
  "repr_char q c =
     (if c = q \<or> c = CHR 0x5C then [CHR 0x5C, c]
      else if c = CHR 0x09 then [CHR 0x5C, CHR ''t'']
      else if c = CHR 0x0A then [CHR 0x5C, CHR ''n'']
      else if c = CHR 0x0D then [CHR 0x5C, CHR ''r'']
      else if printable c then [c]
      else [CHR 0x5C, CHR ''x'', hexdigit (code c div 16), hexdigit (code c mod 16)])"

definition repr_str :: "string \<Rightarrow> string" where
  "repr_str s =
     (let q = (if CHR 0x27 \<in> set s \<and> CHR 0x22 \<notin> set s then CHR 0x22 else CHR 0x27)
      in q # concat (map (repr_char q) s) @ [q])"

text \<open>\<open>sep.join(xs)\<close>.\<close>

fun join :: "string \<Rightarrow> string list \<Rightarrow> string" where
  "join sep [] = []"
| "join sep [x] = x"
| "join sep (x # y # ys) = x @ sep @ join sep (y # ys)"

definition str_list :: "string list \<Rightarrow> string" where
  "str_list xs = ''['' @ join '', '' (map repr_str xs) @ '']''"

section \<open>Agent roster\<close>

text \<open>
  An agent specification is a dictionary; the development agents have no key
  \<open>responsibilities\<close>. The key \<open>type\<close> is the field \<open>agent_type\<close>.
\<close>

record agent_spec =
  agent_id :: string
  title :: string
  agent_type :: string
  role :: string
  authority :: string
  responsibilities :: "string list option"

definition core_coordination_agents :: "agent_spec list" where
  "core_coordination_agents =
    [\<lparr>agent_id = ''master-coordinator'', title = ''Master Coordination Agent'',
      agent_type = ''coordination'', role = ''Orchestrate overall system execution'',
      authority = ''coordinate'',
      responsibilities = Some [''Sprint planning'', ''Task assignment'', ''Progress tracking'',
        ''Blocker resolution'']\<rparr>,
     \<lparr>agent_id = ''task-dispatcher'', title = ''Task Dispatcher Agent'',
      agent_type = ''coordination'', role = ''Assign tasks to appropriate agents'',
      authority = ''assign'',
      responsibilities = Some [''Task analysis'', ''Agent matching'', ''Load balancing'',
        ''Priority management'']\<rparr>]"

definition mobile_agent :: agent_spec where
  "mobile_agent =
     \<lparr>agent_id = ''mobile-agent'', title = ''Mobile Development Agent'',
      agent_type = ''development'', role = ''Develop mobile applications'',
      authority = ''implement'', responsibilities = None\<rparr>"

definition api_agent :: agent_spec where
  "api_agent =
     \<lparr>agent_id = ''api-agent'', title = ''API Development Agent'',
      agent_type = ''development'', role = ''Design and implement APIs'',
      authority = ''implement'', responsibilities = None\<rparr>"

text \<open>
  \<open>MasterAgent._domain_specific_agents\<close>: three agents for any domain, then the two
  specialisations, each decided by a substring test on the lower-cased printed list of
  architecture hints.
\<close>

definition domain_specific_agents :: "vision_profile \<Rightarrow> agent_spec list" where
  "domain_specific_agents vp =
    [\<lparr>agent_id = ''implementation-agent'', title = ''Implementation Agent'',
      agent_type = ''development'', role = ''Implement features and functionality'',
      authority = ''implement'', responsibilities = None\<rparr>,
     \<lparr>agent_id = ''test-agent'', title = ''Quality Assurance Agent'',
      agent_type = ''development'', role = ''Ensure quality through testing'',
      authority = ''validate'', responsibilities = None\<rparr>,
     \<lparr>agent_id = ''documentation-agent'', title = ''Documentation Agent'',
      agent_type = ''development'', role = ''Maintain project documentation'',
      authority = ''document'', responsibilities = None\<rparr>]
    @ (if contains (lower (str_list (architecture_hints vp))) ''mobile'' then [mobile_agent] else [])
    @ (if contains (lower (str_list (architecture_hints vp))) ''api'' then [api_agent] else [])"

definition enforcement_agents :: "agent_spec list" where
  "enforcement_agents =
    [\<lparr>agent_id = ''constitutional-judge'', title = ''Constitutional Judge Agent'',
      agent_type = ''enforcement'', role = ''Ensure compliance with constitution'',
      authority = ''enforce'',
      responsibilities = Some [''Review changes for principle violations'',
        ''Validate vision alignment'', ''Enforce core laws'']\<rparr>,
     \<lparr>agent_id = ''security-enforcer'', title = ''Security Enforcement Agent'',
      agent_type = ''enforcement'', role = ''Ensure security standards'',
      authority = ''enforce'',
      responsibilities = Some [''Security scanning'', ''Vulnerability detection'',
        ''Secret detection'']\<rparr>,
     \<lparr>agent_id = ''quality-enforcer'', title = ''Quality Enforcement Agent'',
      agent_type = ''enforcement'', role = ''Ensure quality standards'',
      authority = ''enforce'',
      responsibilities = Some [''Code quality checks'', ''Test coverage validation'',
        ''Performance validation'']\<rparr>]"

text \<open>
  \<open>MasterAgent.identify_required_agents\<close>, for an agent whose vision data is the given
  profile: the three groups, appended in this order.
\<close>

definition identify_required_agents :: "vision_profile \<Rightarrow> agent_spec list" where
  "identify_required_agents vp =
     core_coordination_agents @ domain_specific_agents vp @ enforcement_agents"

text \<open>
  Deduplication by \<open>agent_id\<close> with the keep-first policy, as the specification words it:
  an agent is dropped when an earlier agent of the roster has the same id.
\<close>

fun dedup_keep_first :: "string list \<Rightarrow> agent_spec list \<Rightarrow> agent_spec list" where
  "dedup_keep_first seen [] = []"
| "dedup_keep_first seen (a # as) =
     (if agent_id a \<in> set seen then dedup_keep_first seen as
      else a # dedup_keep_first (agent_id a # seen) as)"

section \<open>Constitution\<close>

record core_law =
  law_id :: string
  law_principle :: string
  enforcement :: string
  violation_action :: string

text \<open>The decimal digits of a number, and the format \<open>03d\<close>: at least three digits.\<close>

fun digits :: "nat \<Rightarrow> string" where
  "digits n = (if n < 10 then [char_of (48 + n)] else digits (n div 10) @ [char_of (48 + n mod 10)])"

declare digits.simps [simp del]

definition format_03d :: "nat \<Rightarrow> string" where
  "format_03d n = replicate (3 - length (digits n)) CHR ''0'' @ digits n"

text \<open>\<open>MasterAgent._derive_core_laws\<close>: one law for each of the first five principles.\<close>

definition derive_core_laws :: "vision_profile \<Rightarrow> core_law list" where
  "derive_core_laws vp =
     map (\<lambda>(i, principle).
            \<lparr>law_id = ''LAW-'' @ format_03d (i + 1), law_principle = principle,
             enforcement = ''automatic'', violation_action = ''reject''\<rparr>)
         (enumerate 0 (take 5 (principles vp)))"

record quality_gate =
  gate_name :: string
  checks :: "string list"
  required :: bool

text \<open>\<open>MasterAgent._define_quality_gates\<close>.\<close>

definition define_quality_gates :: "vision_profile \<Rightarrow> quality_gate list" where
  "define_quality_gates vp =
    [\<lparr>gate_name = ''Code Quality'', checks = [''linting'', ''tests'', ''coverage''], required = True\<rparr>,
     \<lparr>gate_name = ''Vision Alignment'', checks = [''goals'', ''principles'', ''constraints''],
      required = True\<rparr>,
     \<lparr>gate_name = ''Security'', checks = [''vulnerability-scan'', ''secrets-check''], required = True\<rparr>]
    @ (if domain vp = ''education''
       then [\<lparr>gate_name = ''Accessibility'', checks = [''wcag'', ''screen-reader''], required = True\<rparr>]
       else [])"

text \<open>The constant parts of the constitution; a dictionary of strings is a list of pairs.\<close>

definition derive_principles :: "(string \<times> string) list list" where
  "derive_principles =
    [[(''id'', ''PRIN-001''), (''name'', ''Vision Alignment''),
      (''description'', ''All work must align with project vision''),
      (''validation'', ''Check against vision goals'')],
     [(''id'', ''PRIN-002''), (''name'', ''Quality First''),
      (''description'', ''Quality cannot be compromised for speed''),
      (''validation'', ''All quality gates must pass'')],
     [(''id'', ''PRIN-003''), (''name'', ''Simplicity''),
      (''description'', ''Choose simple solutions over complex''),
      (''validation'', ''Complexity review required'')]]"

record decision_framework =
  agent_authority :: "(string \<times> string) list"
  review_required :: "string list"
  approval_levels :: "(string \<times> string) list"

definition create_decision_framework :: decision_framework where
  "create_decision_framework =
    \<lparr>agent_authority = [(''implement'', ''Implementation details''),
       (''propose'', ''Architectural changes''), (''escalate'', ''Vision/principle changes'')],
     review_required = [''Breaking changes'', ''New dependencies'', ''Architecture decisions'',
       ''Security changes''],
     approval_levels = [(''code'', ''any-agent''), (''architecture'', ''enforcement-agent''),
       (''vision'', ''human'')]\<rparr>"

definition define_review_criteria :: "string list" where
  "define_review_criteria =
    [''Aligns with vision'', ''Follows principles'', ''Meets quality gates'',
     ''Has adequate tests'', ''Documentation updated'', ''No security issues'']"

definition define_enforcement_rules :: "(string \<times> string list) list" where
  "define_enforcement_rules =
    [(''automatic'', [''Linting'', ''Tests'', ''Security scans'']),
     (''agent_review'', [''Code review'', ''Architecture review'', ''Complexity review'']),
     (''human_approval'', [''Vision changes'', ''Release decisions'', ''Major pivots''])]"

definition define_escalation_paths :: "(string \<times> string) list" where
  "define_escalation_paths =
    [(''technical_blocker'', ''coordination-agent''), (''architecture_conflict'', ''enforcement-agent''),
     (''vision_conflict'', ''human''), (''resource_constraint'', ''human'')]"

text \<open>
  \<open>MasterAgent.generate_constitution\<close>, for an agent whose vision data is the given
  profile. The path of the vision document and the reading of the clock
  (\<open>datetime.now().isoformat()\<close>) are inputs.
\<close>

record constitution =
  version :: string
  created :: string
  source_vision :: string
  core_laws :: "core_law list"
  working_principles :: "(string \<times> string) list list"
  framework :: decision_framework
  quality_gates :: "quality_gate list"
  review_criteria :: "string list"
  enforcement_rules :: "(string \<times> string list) list"
  escalation :: "(string \<times> string) list"

definition generate_constitution :: "vision_profile \<Rightarrow> string \<Rightarrow> string \<Rightarrow> constitution" where
  "generate_constitution vp vision_path now =
    \<lparr>version = ''1.0'', created = now, source_vision = vision_path,
     core_laws = derive_core_laws vp,
     working_principles = derive_principles,
     framework = create_decision_framework,
     quality_gates = define_quality_gates vp,
     review_criteria = define_review_criteria,
     enforcement_rules = define_enforcement_rules,
     escalation = define_escalation_paths\<rparr>"

section \<open>Constitution for pull requests\<close>

text \<open>\<open>any(keyword in text for keyword in keywords)\<close>.\<close>

definition any_in :: "string \<Rightarrow> string list \<Rightarrow> bool" where
  "any_in text keywords = list_ex (contains text) keywords"

text \<open>\<open>PRConstitutionGenerator._generate_principle_checks\<close>.\<close>

definition generate_principle_checks :: "string \<Rightarrow> string list" where
  "generate_principle_checks principle =
     (let principle_lower = lower principle in
      take 4 (''Implementation aligns with principle'' #
       (if any_in principle_lower [''offline'', ''connectivity'', ''network'']
        then [''Feature works without network connectivity'', ''Graceful handling of network failures'']
        else if any_in principle_lower [''mobile'', ''phone'', ''device'']
        then [''Mobile-friendly implementation'', ''Works on target mobile devices'']
        else if any_in principle_lower [''simple'', ''simplicity'', ''easy'']
        then [''Solution is as simple as possible'', ''No unnecessary complexity'']
        else if any_in principle_lower [''secure'', ''security'', ''privacy'', ''protected'']
        then [''Security best practices followed'', ''No known vulnerabilities'']
        else if any_in principle_lower [''performance'', ''fast'', ''speed'', ''quick'']
        then [''Performance targets met'', ''No performance regressions'']
        else if any_in principle_lower [''reliable'', ''reliability'', ''consistent'', ''resilient'']
        then [''Error handling implemented'', ''Graceful degradation in edge cases'']
        else if any_in principle_lower [''accessible'', ''accessibility'', ''anyone'', ''anywhere'']
        then [''Works in target environments'', ''No unnecessary barriers'']
        else if any_in principle_lower [''open'', ''transparent'', ''interoperable'']
        then [''Uses open standards where applicable'', ''Documented interfaces'']
        else [''Principle considered in design'', ''No violations of principle''])))"

text \<open>
  \<open>PRConstitutionGenerator._derive_technical_requirements\<close>: a dictionary from the name of
  a requirement to its description and checks, in insertion order.
\<close>

record requirement =
  description :: string
  req_checks :: "string list"

definition derive_technical_requirements :: "vision_profile \<Rightarrow> (string \<times> requirement) list" where
  "derive_technical_requirements vp =
     (let arch_hints = lower (join '' '' (architecture_hints vp)) in
      (if contains arch_hints ''mobile'' \<or> contains arch_hints ''phone'' \<or> contains arch_hints ''device''
       then [(''device_compatibility'',
              \<lparr>description = ''Ensure compatibility with target devices'',
               req_checks = [''Tested on target devices or emulators'',
                 ''Performance within acceptable range'', ''No crashes on target platforms'',
                 ''Resource usage acceptable'']\<rparr>)]
       else [])
      @ (if contains (lower (join '' '' (constraints vp))) ''performance''
            \<or> contains (join '' '' (vision_values vp)) ''fast''
         then [(''performance'',
                \<lparr>description = ''Meet performance requirements'',
                 req_checks = [''Performance benchmarks run'', ''No performance regressions'',
                   ''Response times acceptable'', ''Resource usage optimized'']\<rparr>)]
         else [])
      @ (if list_ex (\<lambda>c. contains (lower c) ''storage'' \<or> contains (lower c) ''memory''
                         \<or> contains (lower c) ''resource'') (constraints vp)
         then [(''resource_constraints'',
                \<lparr>description = ''Respect resource constraints'',
                 req_checks = [''Storage impact documented'', ''Memory usage acceptable'',
                   ''Resource cleanup implemented'', ''Efficient data structures used'']\<rparr>)]
         else []))"

text \<open>
  The part of \<open>PRConstitutionGenerator._create_pr_constitution\<close> that depends on the run:
  the date of the run (\<open>datetime.now().strftime('%Y-%m-%d')\<close>) and the path are inputs. The
  remaining keys of the dictionary are tables that the claims below do not mention.
\<close>

record pr_constitution =
  pr_version :: string
  last_updated :: string
  generated_from :: string
  pr_domain :: string
  technical_requirements :: "(string \<times> requirement) list"

definition create_pr_constitution :: "vision_profile \<Rightarrow> string \<Rightarrow> string \<Rightarrow> pr_constitution" where
  "create_pr_constitution vp vision_path today =
    \<lparr>pr_version = ''1.0'', last_updated = today, generated_from = vision_path,
     pr_domain = domain vp,
     technical_requirements = derive_technical_requirements vp\<rparr>"

section \<open>Two profiles\<close>

text \<open>A profile whose hints mention neither mobile nor API work, and one for a mobile project.\<close>

definition plain_profile :: vision_profile where
  "plain_profile =
     \<lparr>mission = ''Teach everyone'', principles = [], short_term = [], long_term = [],
      constraints = [], success_criteria = [], domain = ''general'', stakeholders = [],
      vision_values = [], architecture_hints = [''offline first'']\<rparr>"

definition mobile_profile :: vision_profile where
  "mobile_profile =
     \<lparr>mission = ''Teach everyone'',
      principles = [''Offline-first: app must work without network'', ''Simple: one tap'',
        ''Secure: keep data safe'', ''Fast: no waiting'', ''Accessible: for all''],
      short_term = [], long_term = [],
      constraints = [], success_criteria = [], domain = ''education'', stakeholders = [],
      vision_values = [], architecture_hints = [''runs on mobile phones'']\<rparr>"

section \<open>Task patterns\<close>

text \<open>
  A task of the sprint plan, as \<open>AgentCreator.analyze_task_patterns\<close> reads it: the keys
  \<open>agent_type\<close> and \<open>estimated_points\<close> are read with a default, the key \<open>description\<close>
  without one, so a task that lacks it raises \<open>KeyError\<close>.
\<close>

record task =
  task_agent_type :: "string option"
  task_description :: "string option"
  estimated_points :: "int option"

definition agent_type_of :: "task \<Rightarrow> string" where
  "agent_type_of t = (case task_agent_type t of None \<Rightarrow> ''general-agent'' | Some a \<Rightarrow> a)"

definition points_of :: "task \<Rightarrow> int" where
  "points_of t = (case estimated_points t of None \<Rightarrow> 2 | Some p \<Rightarrow> p)"

record need =
  need_count :: nat
  need_tasks :: "string list"
  need_complexity :: "int list"

text \<open>
  One pass of the counting loop on the dictionary \<open>agent_needs\<close>, kept in insertion
  order: a new agent type is entered at the end, a known one is updated in its place.
\<close>

fun bump :: "(string \<times> need) list \<Rightarrow> string \<Rightarrow> string \<Rightarrow> int \<Rightarrow> (string \<times> need) list" where
  "bump [] k d p = [(k, \<lparr>need_count = 1, need_tasks = [d], need_complexity = [p]\<rparr>)]"
| "bump ((k', n) # rest) k d p =
     (if k' = k
      then (k', \<lparr>need_count = need_count n + 1, need_tasks = need_tasks n @ [d],
                 need_complexity = need_complexity n @ [p]\<rparr>) # rest
      else (k', n) # bump rest k d p)"

fun count_tasks :: "(string \<times> need) list \<Rightarrow> task list \<Rightarrow> error + (string \<times> need) list" where
  "count_tasks needs [] = Inr needs"
| "count_tasks needs (t # ts) =
     (case task_description t of
        None \<Rightarrow> Inl KeyError
      | Some d \<Rightarrow> count_tasks (bump needs (agent_type_of t) d (points_of t)) ts)"

text \<open>
  A suggestion. \<open>avg_complexity\<close> is the exact quotient of the sum and the number of the
  points; Python rounds it to a float.
\<close>

record suggestion =
  s_agent_type :: string
  task_count :: nat
  avg_complexity :: rat
  sample_tasks :: "string list"
  priority :: string

definition suggest :: "string \<times> need \<Rightarrow> suggestion" where
  "suggest kn =
     \<lparr>s_agent_type = fst kn, task_count = need_count (snd kn),
      avg_complexity = of_int (sum_list (need_complexity (snd kn)))
                         / of_nat (length (need_complexity (snd kn))),
      sample_tasks = take 3 (need_tasks (snd kn)),
      priority = (if need_count (snd kn) \<ge> 5 then ''high'' else ''medium'')\<rparr>"

text \<open>
  \<open>sorted(xs, key=..., reverse=True)\<close> is a stable sort into descending order of the key:
  items with equal keys keep their order. It is the stable sort of the library on the
  negated key.
\<close>

definition sorted_reverse :: "('a \<Rightarrow> nat) \<Rightarrow> 'a list \<Rightarrow> 'a list" where
  "sorted_reverse key xs = sort_key (\<lambda>x. - int (key x)) xs"

record analysis =
  suggestions :: "suggestion list"
  total_tasks :: nat
  unique_agent_types :: nat

text \<open>\<open>AgentCreator.analyze_task_patterns\<close> on the task list of the loaded sprint plan.\<close>

definition analyze_task_patterns :: "task list \<Rightarrow> error + analysis" where
  "analyze_task_patterns tasks =
     (case count_tasks [] tasks of
        Inl e \<Rightarrow> Inl e
      | Inr agent_needs \<Rightarrow>
          Inr \<lparr>suggestions =
                 sorted_reverse task_count
                   (map suggest (filter (\<lambda>kn. need_count (snd kn) \<ge> 3) agent_needs)),
               total_tasks = length tasks,
               unique_agent_types = length agent_needs\<rparr>)"

text \<open>
  The agent types of a list in the order of their first occurrence; the first argument
  holds the types seen so far.
\<close>

fun first_seen :: "string list \<Rightarrow> string list \<Rightarrow> string list" where
  "first_seen seen [] = seen"
| "first_seen seen (x # xs) = first_seen (if x \<in> set seen then seen else seen @ [x]) xs"

text \<open>Three tasks for the data agent followed by three for the UI agent.\<close>

definition tie_tasks :: "task list" where
  "tie_tasks =
     map (\<lambda>(a, d). \<lparr>task_agent_type = Some a, task_description = Some d, estimated_points = Some 3\<rparr>)
       [(''data-agent'', ''Create schema''), (''data-agent'', ''Add storage layer''),
        (''data-agent'', ''Design data model''), (''ui-agent'', ''Build start screen''),
        (''ui-agent'', ''Create list view''), (''ui-agent'', ''Add settings screen'')]"

text \<open>The count that the dictionary of needs records for an agent type, 0 when it has no entry.\<close>

definition count_in :: "(string \<times> need) list \<Rightarrow> string \<Rightarrow> nat" where
  "count_in needs k = (case map_of needs k of None \<Rightarrow> 0 | Some n \<Rightarrow> need_count n)"

section \<open>List items, as the specification words them\<close>

text \<open>
  The length of the leading marker of a trimmed line: one character for a bullet \<open>-\<close> or
  \<open>*\<close>, the digits and the dot for a numeric ordinal, nothing for any other line.
\<close>

definition marker_length :: "string \<Rightarrow> nat option" where
  "marker_length line =
     (if startswith line ''-'' \<or> startswith line ''*'' then Some 1
      else (let k = length (takeWhile isdigit line)
            in if 0 < k \<and> startswith (drop k line) ''.'' then Some (Suc k) else None))"

text \<open>A digit directly followed by a dot, somewhere in the text.\<close>

fun has_ordinal :: "string \<Rightarrow> bool" where
  "has_ordinal (a # b # cs) = ((isdigit a \<and> b = CHR ''.'') \<or> has_ordinal (b # cs))"
| "has_ordinal [a] = False"
| "has_ordinal [] = False"

text \<open>
  The item of a line: the trimmed line without its marker and the white space behind it,
  kept when it has more than 5 characters.
\<close>

definition listed_item :: "string \<Rightarrow> string option" where
  "listed_item raw =
     (case marker_length (strip raw) of
        None \<Rightarrow> None
      | Some k \<Rightarrow> (let item = lstrip (drop k (strip raw))
                   in if 5 < length item then Some item else None))"

text \<open>A line is plain when no digit is directly followed by a dot behind its marker.\<close>

definition plain_line :: "string \<Rightarrow> bool" where
  "plain_line raw =
     (case marker_length (strip raw) of None \<Rightarrow> True | Some k \<Rightarrow> \<not> has_ordinal (drop k (strip raw)))"

section \<open>Properties of the domain classifier\<close>

lemma max_from_inv:
  assumes "i < length pre" "best = pre ! i"
    "\<forall>j < length pre. key (pre ! j) \<le> key best"
    "\<forall>j < i. key (pre ! j) < key best"
  shows "\<exists>k < length (pre @ xs). max_from key best xs = (pre @ xs) ! k
      \<and> (\<forall>j < length (pre @ xs). key ((pre @ xs) ! j) \<le> key ((pre @ xs) ! k))
      \<and> (\<forall>j < k. key ((pre @ xs) ! j) < key ((pre @ xs) ! k))"
  using assms
proof (induction xs arbitrary: pre i best)
  case Nil
  then show ?case by auto
next
  case (Cons x xs)
  let ?pre = "pre @ [x]"
  let ?best = "if key best < key x then x else best"
  let ?i = "if key best < key x then length pre else i"
  have a: "?i < length ?pre" using Cons.prems(1) by simp
  have b: "?best = ?pre ! ?i" using Cons.prems(1,2) by (simp add: nth_append)
  have c: "\<forall>j < length ?pre. key (?pre ! j) \<le> key ?best"
    using Cons.prems(3) by (auto simp: nth_append less_Suc_eq intro: order_trans less_imp_le)
  have d: "\<forall>j < ?i. key (?pre ! j) < key ?best"
    using Cons.prems(1,3,4) by (auto simp: nth_append intro: le_less_trans)
  from Cons.IH [OF a b c d] show ?case by simp
qed

lemma max_from_first:
  "\<exists>k < length (b # xs). max_from key b xs = (b # xs) ! k
      \<and> (\<forall>j < length (b # xs). key ((b # xs) ! j) \<le> key ((b # xs) ! k))
      \<and> (\<forall>j < k. key ((b # xs) ! j) < key ((b # xs) ! k))"
  using max_from_inv [of 0 "[b]" b key xs] by simp

lemma domain_scores_names:
  "map fst (domain_scores content) =
     [''education'', ''healthcare'', ''finance'', ''ecommerce'', ''social'', ''iot'',
      ''enterprise'', ''gaming'', ''media'']"
  by (simp add: domain_scores_def domain_keywords_def)

text \<open>
  C1. For every document the classifier returns a domain and never raises. The scores are
  kept in the declaration order of the lexicon (education, healthcare, finance, ecommerce,
  social, iot, enterprise, gaming, media), each the sum of the occurrence counts of the
  domain's keywords in the lower-cased text. The answer is \<open>general\<close> exactly when every
  score is 0; otherwise it is the domain of an entry whose score no other entry exceeds
  and which every earlier entry stays strictly below, that is, the earliest declared
  domain among those with the maximal score.
\<close>

theorem infer_domain_argmax:
  "\<exists>d. infer_domain content = Inr d
     \<and> map fst (domain_scores content) =
         [''education'', ''healthcare'', ''finance'', ''ecommerce'', ''social'', ''iot'',
          ''enterprise'', ''gaming'', ''media'']
     \<and> map snd (domain_scores content) =
         map (\<lambda>(domain, keywords). sum_list (map (count (lower content)) keywords)) domain_keywords
     \<and> (d = ''general'' \<longleftrightarrow> (\<forall>p \<in> set (domain_scores content). snd p = 0))
     \<and> (d \<noteq> ''general'' \<longrightarrow>
          (\<exists>i < length (domain_scores content). d = fst (domain_scores content ! i)
             \<and> (\<forall>j < length (domain_scores content).
                    snd (domain_scores content ! j) \<le> snd (domain_scores content ! i))
             \<and> (\<forall>j < i. snd (domain_scores content ! j) < snd (domain_scores content ! i))))"
proof -
  let ?ds = "domain_scores content"
  note names = domain_scores_names [of content]
  have sums: "map snd ?ds =
      map (\<lambda>(domain, keywords). sum_list (map (count (lower content)) keywords)) domain_keywords"
    by (auto simp: domain_scores_def keyword_score_def)
  from names obtain b xs where ds: "?ds = b # xs" by (cases ?ds) auto
  obtain k where k: "k < length ?ds" "max_from snd b xs = ?ds ! k"
    "\<forall>j < length ?ds. snd (?ds ! j) \<le> snd (?ds ! k)"
    "\<forall>j < k. snd (?ds ! j) < snd (?ds ! k)"
    using max_from_first [of b xs snd] ds by auto
  let ?top = "?ds ! k"
  have res: "infer_domain content = Inr (if snd ?top > 0 then fst ?top else ''general'')"
    using ds k(2) by (simp add: infer_domain_def max_by_def)
  have "fst ?top \<in> set (map fst ?ds)" using k(1) by (metis length_map nth_map nth_mem)
  then have ng: "fst ?top \<noteq> ''general''" unfolding names by auto
  have zero: "(\<forall>p \<in> set ?ds. snd p = 0) \<longleftrightarrow> snd ?top = 0"
  proof
    assume "\<forall>p \<in> set ?ds. snd p = 0"
    then show "snd ?top = 0" using k(1) by simp
  next
    assume z: "snd ?top = 0"
    show "\<forall>p \<in> set ?ds. snd p = 0"
    proof
      fix p assume "p \<in> set ?ds"
      then obtain j where "j < length ?ds" "p = ?ds ! j" by (auto simp: in_set_conv_nth)
      then show "snd p = 0" using k(3) z by auto
    qed
  qed
  show ?thesis
  proof (cases "snd ?top > 0")
    case True
    then show ?thesis using res names sums ng zero k by auto
  next
    case False
    then show ?thesis using res names sums zero by auto
  qed
qed

theorem infer_domain_argmax_witness:
  "infer_domain ''Students order a course'' = Inr ''education''
     \<and> (\<exists>i < length (domain_scores ''Students order a course'').
          ''education'' = fst (domain_scores ''Students order a course'' ! i)
          \<and> (\<forall>j < length (domain_scores ''Students order a course'').
                snd (domain_scores ''Students order a course'' ! j)
                  \<le> snd (domain_scores ''Students order a course'' ! i))
          \<and> (\<forall>j < i. snd (domain_scores ''Students order a course'' ! j)
                  < snd (domain_scores ''Students order a course'' ! i)))"
proof -
  have e: "infer_domain ''Students order a course'' = Inr ''education''"
    by code_simp
  from infer_domain_argmax [of "''Students order a course''"] e show ?thesis
    by auto
qed

section \<open>Properties of the extracted values\<close>

text \<open>
  C10. For every document the values of the profile are a subsequence of the fixed
  vocabulary in its declaration order, whatever the order of the words in the document,
  with at most 7 entries and no entry twice.
\<close>

theorem extract_values_vocabulary:
  "subseq (extract_values content) value_keywords \<and> length (extract_values content) \<le> 7
     \<and> distinct (extract_values content)"
proof -
  let ?found = "filter (\<lambda>v. contains (lower content) v) value_keywords"
  have "subseq (take 7 ?found) ?found"
    by (simp add: prefix_imp_subseq take_is_prefix)
  then have "subseq (take 7 ?found) value_keywords"
    by (rule subseq_order.order_trans) (rule subseq_filter_left)
  moreover have "distinct value_keywords"
    by (simp add: value_keywords_def)
  ultimately show ?thesis
    by (simp add: extract_values_def)
qed

section \<open>Properties of the mission\<close>

lemma rx_run_keeps:
  "(n', s', g') \<in> set (rx_run p (n, s, g)) \<Longrightarrow> map_of g i \<noteq> None \<Longrightarrow> map_of g' i \<noteq> None"
proof (induction p arbitrary: n s g n' s' g')
  case (Cat a b)
  then show ?case by (auto 4 4)
next
  case (Ahead a)
  then show ?case by (auto split: list.splits) (metis list.set_intros(1))+
qed (auto simp: Let_def split: list.splits if_splits)

lemma rx_run_binds:
  "binds i p \<Longrightarrow> (n', s', g') \<in> set (rx_run p (n, s, g)) \<Longrightarrow> map_of g' i \<noteq> None"
proof (induction p arbitrary: n s g n' s' g')
  case (Cat a b)
  from Cat.prems(2) obtain n1 s1 g1 where
    m: "(n1, s1, g1) \<in> set (rx_run a (n, s, g))" "(n', s', g') \<in> set (rx_run b (n1, s1, g1))"
    by auto
  show ?case
  proof (cases "binds i a")
    case True
    with Cat.IH(1) m(1) have "map_of g1 i \<noteq> None" by blast
    with rx_run_keeps m(2) show ?thesis by blast
  next
    case False
    with Cat.prems(1) have "binds i b" by simp
    with Cat.IH(2) m(2) show ?thesis by blast
  qed
next
  case (Grp j a)
  then show ?case by (auto split: if_splits)
next
  case (Ahead a)
  then show ?case by (auto split: list.splits) (metis list.set_intros(1))+
qed auto

lemma search_from_hd:
  "search_from p n s = Some (k, r) \<Longrightarrow> \<exists>s' rs. rx_run p (k, s', []) = r # rs"
  by (induction s arbitrary: n) (auto split: list.splits)

lemma search_from_run:
  "search_from p n s = Some (k, r) \<Longrightarrow> \<exists>s'. r \<in> set (rx_run p (k, s', []))"
  using search_from_hd [of p n s k r] by (metis list.set_intros(1))

lemma heading_rx_binds: "binds 1 (heading_rx label)"
  by (simp add: heading_rx_def seq_def)

lemma re_search_heading_group:
  assumes "re_search (heading_rx label) content = Some m"
  shows "group m 1 \<noteq> None"
proof -
  obtain k n' s' g' where m: "m = (k, n', s', g')" by (cases m) auto
  with assms obtain s0 where "(n', s', g') \<in> set (rx_run (heading_rx label) (k, s0, []))"
    using search_from_run [of "heading_rx label" 0 content k "(n', s', g')"]
    by (auto simp: re_search_def)
  with rx_run_binds [OF heading_rx_binds] have "map_of g' 1 \<noteq> None" by blast
  with m show ?thesis by (simp add: group_def)
qed

lemma mission_from_bounded:
  "mission_from labels content = Some r \<Longrightarrow> \<exists>m. r = Inr m \<and> length m \<le> 500"
proof (induction labels)
  case Nil
  then show ?case by simp
next
  case (Cons label labels)
  show ?case
  proof (cases "re_search (heading_rx label) content")
    case None
    with Cons show ?thesis by simp
  next
    case (Some m)
    with re_search_heading_group obtain body where "group m 1 = Some body" by blast
    with Some Cons.prems show ?thesis by auto
  qed
qed

text \<open>
  C9. For every document the mission extraction returns a text and does not raise, and
  the mission has at most 500 characters, whether it was found under a Mission, Purpose or
  Overview heading or taken from the first paragraph.
\<close>

theorem extract_mission_bounded:
  "\<exists>m. extract_mission content = Inr m \<and> length m \<le> 500"
proof (cases "mission_from [''Mission'', ''Purpose'', ''Overview''] content")
  case None
  then show ?thesis by (simp add: extract_mission_def split: list.splits)
next
  case (Some r)
  with mission_from_bounded obtain m where "r = Inr m" "length m \<le> 500" by blast
  with Some show ?thesis by (simp add: extract_mission_def)
qed

section \<open>Sections by heading, evaluated\<close>

text \<open>
  C5. The section extractor on a document with a level-1 heading \<open>Mission\<close>, a body
  \<open>Build it\<close> and a following level-2 heading: the pattern it compiles asks for the text
  \<open>#1, 3\<close> in place of one to three hash signs, so the heading is not found and the result
  is empty; on a line that does begin with \<open>#1, 3\<close> the result is the text \<open>1, 3\<close>, not
  the body. The mission extractor, whose pattern is built without an f-string, returns the
  body on the same document.
\<close>

theorem extract_section_mission_heading:
  "extract_section ''# Mission\<newline>Build it\<newline>## Goals\<newline>More'' ''Mission'' = Inr []
   \<and> extract_section ''#1, 3 Mission\<newline>Build it\<newline>## Goals\<newline>More'' ''Mission'' = Inr ''1, 3''
   \<and> extract_mission ''# Mission\<newline>Build it\<newline>## Goals\<newline>More'' = Inr ''Build it''"
  by code_simp

section \<open>Properties of the agent roster\<close>

lemma startswith_iff: "startswith s p \<longleftrightarrow> (\<exists>q. s = p @ q)"
  by (induction s p rule: startswith.induct) auto

lemma contains_iff: "contains s w \<longleftrightarrow> (\<exists>p q. s = p @ w @ q)"
proof (induction s)
  case Nil
  then show ?case by auto
next
  case (Cons c cs)
  show ?case
  proof
    assume "contains (c # cs) w"
    then consider "startswith (c # cs) w" | "contains cs w" by auto
    then show "\<exists>p q. c # cs = p @ w @ q"
    proof cases
      case 1
      then obtain q where "c # cs = w @ q" by (auto simp: startswith_iff)
      then have "c # cs = [] @ w @ q" by simp
      then show ?thesis by blast
    next
      case 2
      with Cons.IH obtain p q where "cs = p @ w @ q" by auto
      then have "c # cs = (c # p) @ w @ q" by simp
      then show ?thesis by blast
    qed
  next
    assume "\<exists>p q. c # cs = p @ w @ q"
    then obtain p q where e: "c # cs = p @ w @ q" by auto
    show "contains (c # cs) w"
    proof (cases p)
      case Nil
      with e have "startswith (c # cs) w" by (auto simp: startswith_iff)
      then show ?thesis by simp
    next
      case (Cons d p')
      with e have "cs = p' @ w @ q" by simp
      with Cons.IH have "contains cs w" by blast
      then show ?thesis by simp
    qed
  qed
qed

lemma repr_char_mobile:
  "concat (map (repr_char q) ''mobile'') = ''mobile''" if "q = CHR 0x27 \<or> q = CHR 0x22"
  using that by (auto simp: repr_char_def printable_def code_def)

lemma repr_str_mobile:
  assumes "contains h ''mobile''"
  shows "contains (repr_str h) ''mobile''"
proof -
  from assms obtain p r where h: "h = p @ ''mobile'' @ r" by (auto simp: contains_iff)
  define q where "q = (if CHR 0x27 \<in> set h \<and> CHR 0x22 \<notin> set h then CHR 0x22 else CHR 0x27)"
  have q: "q = CHR 0x27 \<or> q = CHR 0x22" by (simp add: q_def)
  have "repr_str h = q # concat (map (repr_char q) h) @ [q]"
    by (simp add: repr_str_def q_def Let_def)
  also have "concat (map (repr_char q) h) =
      concat (map (repr_char q) p) @ ''mobile'' @ concat (map (repr_char q) r)"
    unfolding h map_append concat_append repr_char_mobile [OF q] ..
  finally have "repr_str h = (q # concat (map (repr_char q) p)) @ ''mobile'' @ (concat (map (repr_char q) r) @ [q])"
    by simp
  then show ?thesis unfolding contains_iff by blast
qed

lemma join_member:
  "x \<in> set xs \<Longrightarrow> \<exists>a b. join sep xs = a @ x @ b"
proof (induction sep xs rule: join.induct)
  case (1 sep)
  then show ?case by simp
next
  case (2 sep y)
  then have "join sep [y] = [] @ x @ []" by simp
  then show ?case by blast
next
  case (3 sep y z zs)
  show ?case
  proof (cases "x = y")
    case True
    then have "join sep (y # z # zs) = [] @ x @ (sep @ join sep (z # zs))" by simp
    then show ?thesis by blast
  next
    case False
    with 3 obtain a b where "join sep (z # zs) = a @ x @ b" by auto
    then have "join sep (y # z # zs) = (y @ sep @ a) @ x @ b" by simp
    then show ?thesis by blast
  qed
qed

lemma contains_append: "contains s w \<Longrightarrow> contains (a @ s @ b) w"
proof -
  assume "contains s w"
  then obtain p q where "s = p @ w @ q" by (auto simp: contains_iff)
  then have "a @ s @ b = (a @ p) @ w @ (q @ b)" by simp
  then show ?thesis unfolding contains_iff by blast
qed

lemma lower_mobile: "lower ''mobile'' = ''mobile''"
  by (simp add: lower_def lower_char_def code_def)

lemma contains_lower_mobile:
  assumes "contains s ''mobile''" shows "contains (lower s) ''mobile''"
proof -
  from assms obtain p q where "s = p @ ''mobile'' @ q" by (auto simp: contains_iff)
  then have "lower s = lower p @ lower ''mobile'' @ lower q" by (simp add: lower_def)
  then show ?thesis unfolding lower_mobile contains_iff by blast
qed

lemma str_list_mobile:
  assumes "h \<in> set hs" "contains h ''mobile''"
  shows "contains (lower (str_list hs)) ''mobile''"
proof -
  from assms(1) have "repr_str h \<in> set (map repr_str hs)" by simp
  then obtain a b where "join '', '' (map repr_str hs) = a @ repr_str h @ b"
    using join_member by blast
  then have "str_list hs = (''['' @ a) @ repr_str h @ (b @ '']'')"
    by (simp add: str_list_def)
  then have "contains (str_list hs) ''mobile''"
    using contains_append [OF repr_str_mobile [OF assms(2)]] by metis
  then show ?thesis by (rule contains_lower_mobile)
qed

lemma roster_ids:
  "map agent_id (identify_required_agents vp) =
     [''master-coordinator'', ''task-dispatcher'', ''implementation-agent'', ''test-agent'',
      ''documentation-agent'']
     @ (if contains (lower (str_list (architecture_hints vp))) ''mobile'' then [''mobile-agent''] else [])
     @ (if contains (lower (str_list (architecture_hints vp))) ''api'' then [''api-agent''] else [])
     @ [''constitutional-judge'', ''security-enforcer'', ''quality-enforcer'']"
  by (simp add: identify_required_agents_def core_coordination_agents_def
      domain_specific_agents_def enforcement_agents_def mobile_agent_def api_agent_def)

text \<open>
  C4. For every profile, no two agents of the roster have the same \<open>agent_id\<close>; the roster
  is its own deduplication by \<open>agent_id\<close> under the keep-first policy.
\<close>

theorem roster_ids_distinct:
  "distinct (map agent_id (identify_required_agents vp))
     \<and> dedup_keep_first [] (identify_required_agents vp) = identify_required_agents vp"
proof
  show "distinct (map agent_id (identify_required_agents vp))"
    unfolding roster_ids by simp
  show "dedup_keep_first [] (identify_required_agents vp) = identify_required_agents vp"
    by (simp add: identify_required_agents_def core_coordination_agents_def
      domain_specific_agents_def enforcement_agents_def mobile_agent_def api_agent_def)
qed

text \<open>
  C2, as stated, fails: for a profile whose only hint is \<open>offline first\<close>, which contains
  neither \<open>mobile\<close> nor \<open>api\<close>, the roster has 8 agents, not 10.
\<close>

theorem roster_size_counterexample:
  "\<not> contains ''offline first'' ''mobile'' \<and> \<not> contains ''offline first'' ''api''
     \<and> architecture_hints plain_profile = [''offline first'']
     \<and> length (identify_required_agents plain_profile) = 8
     \<and> length (identify_required_agents plain_profile) \<noteq> 10"
  by code_simp

text \<open>
  C2, amended. When some architecture hint contains the substring \<open>mobile\<close>, the roster
  includes an agent with the id \<open>mobile-agent\<close>. When the hints, printed as a list and
  lower-cased (the text that the code searches), contain neither \<open>mobile\<close> nor \<open>api\<close>, the
  roster has exactly 8 agents: 2 for coordination, 3 for development and 3 for enforcement.
\<close>

theorem roster_by_hints:
  "(list_ex (\<lambda>h. contains h ''mobile'') (architecture_hints vp)
       \<longrightarrow> ''mobile-agent'' \<in> set (map agent_id (identify_required_agents vp)))
   \<and> (\<not> contains (lower (str_list (architecture_hints vp))) ''mobile''
        \<and> \<not> contains (lower (str_list (architecture_hints vp))) ''api''
       \<longrightarrow> length (identify_required_agents vp) = 8
          \<and> map agent_id (identify_required_agents vp) =
              [''master-coordinator'', ''task-dispatcher'', ''implementation-agent'', ''test-agent'',
               ''documentation-agent'', ''constitutional-judge'', ''security-enforcer'',
               ''quality-enforcer''])"
proof (intro conjI impI)
  assume "list_ex (\<lambda>h. contains h ''mobile'') (architecture_hints vp)"
  then obtain h where "h \<in> set (architecture_hints vp)" "contains h ''mobile''"
    by (auto simp: list_ex_iff)
  then have "contains (lower (str_list (architecture_hints vp))) ''mobile''"
    by (rule str_list_mobile)
  then show "''mobile-agent'' \<in> set (map agent_id (identify_required_agents vp))"
    unfolding roster_ids by simp
next
  assume a: "\<not> contains (lower (str_list (architecture_hints vp))) ''mobile''
        \<and> \<not> contains (lower (str_list (architecture_hints vp))) ''api''"
  then show "map agent_id (identify_required_agents vp) =
              [''master-coordinator'', ''task-dispatcher'', ''implementation-agent'', ''test-agent'',
               ''documentation-agent'', ''constitutional-judge'', ''security-enforcer'',
               ''quality-enforcer'']"
    unfolding roster_ids by simp
  then have "length (map agent_id (identify_required_agents vp)) = 8" by simp
  then show "length (identify_required_agents vp) = 8" by simp
qed

theorem roster_by_hints_witness:
  "''mobile-agent'' \<in> set (map agent_id (identify_required_agents mobile_profile))
   \<and> length (identify_required_agents plain_profile) = 8"
proof -
  have m: "list_ex (\<lambda>h. contains h ''mobile'') (architecture_hints mobile_profile)"
    by (simp add: mobile_profile_def)
  have p: "\<not> contains (lower (str_list (architecture_hints plain_profile))) ''mobile''
        \<and> \<not> contains (lower (str_list (architecture_hints plain_profile))) ''api''"
    by code_simp
  from roster_by_hints [of mobile_profile] roster_by_hints [of plain_profile] m p
  show ?thesis by blast
qed

section \<open>Properties of the constitution\<close>

lemma format_03d_small:
  "format_03d (Suc 0) = ''001''" "format_03d (Suc (Suc 0)) = ''002''"
  "format_03d (Suc (Suc (Suc 0))) = ''003''" "format_03d (Suc (Suc (Suc (Suc 0)))) = ''004''"
  "format_03d (Suc (Suc (Suc (Suc (Suc 0))))) = ''005''"
  by code_simp+

lemma take5_shape:
  assumes "5 \<le> length xs"
  shows "take 5 xs = [xs ! 0, xs ! 1, xs ! 2, xs ! 3, xs ! 4]"
proof -
  from assms obtain a b c d e rest where "xs = a # b # c # d # e # rest"
    by (auto simp: Suc_le_length_iff eval_nat_numeral)
  then show ?thesis by simp
qed

lemma derive_core_laws_five:
  assumes "5 \<le> length (principles vp)"
  shows "derive_core_laws vp =
    map (\<lambda>(n, i). \<lparr>law_id = n, law_principle = principles vp ! i,
                   enforcement = ''automatic'', violation_action = ''reject''\<rparr>)
      [(''LAW-001'', 0), (''LAW-002'', 1), (''LAW-003'', 2), (''LAW-004'', 3), (''LAW-005'', 4)]"
  unfolding derive_core_laws_def take5_shape [OF assms]
  by (simp add: enumerate_eq_zip upt_rec format_03d_small)

text \<open>
  C3. For every profile with at least five principles whose first principle mentions
  \<open>offline\<close> or \<open>network\<close> (in any letter case), the core laws are the first five
  principles, one law each and in the order of the list, with the ids \<open>LAW-001\<close> to
  \<open>LAW-005\<close>, enforcement \<open>automatic\<close> and violation action \<open>reject\<close>; and the checks
  generated for the first principle are the generic check followed by the two connectivity
  checks.
\<close>

theorem core_laws_from_principles:
  assumes "5 \<le> length (principles vp)"
    and "contains (lower (principles vp ! 0)) ''offline'' \<or> contains (lower (principles vp ! 0)) ''network''"
  shows "map law_id (derive_core_laws vp) = [''LAW-001'', ''LAW-002'', ''LAW-003'', ''LAW-004'', ''LAW-005'']
     \<and> map law_principle (derive_core_laws vp) = take 5 (principles vp)
     \<and> (\<forall>l \<in> set (derive_core_laws vp). enforcement l = ''automatic'' \<and> violation_action l = ''reject'')
     \<and> generate_principle_checks (principles vp ! 0) =
          [''Implementation aligns with principle'', ''Feature works without network connectivity'',
           ''Graceful handling of network failures'']"
proof -
  note laws = derive_core_laws_five [OF assms(1)]
  have ids: "map law_id (derive_core_laws vp) = [''LAW-001'', ''LAW-002'', ''LAW-003'', ''LAW-004'', ''LAW-005'']"
    unfolding laws by simp
  have ps: "map law_principle (derive_core_laws vp) = take 5 (principles vp)"
    unfolding laws take5_shape [OF assms(1)] by simp
  have en: "\<forall>l \<in> set (derive_core_laws vp). enforcement l = ''automatic'' \<and> violation_action l = ''reject''"
    unfolding laws by simp
  have "any_in (lower (principles vp ! 0)) [''offline'', ''connectivity'', ''network'']"
    using assms(2) by (auto simp: any_in_def)
  then have ch: "generate_principle_checks (principles vp ! 0) =
          [''Implementation aligns with principle'', ''Feature works without network connectivity'',
           ''Graceful handling of network failures'']"
    by (simp add: generate_principle_checks_def Let_def)
  from ids ps en ch show ?thesis by blast
qed

theorem core_laws_from_principles_witness:
  "map law_id (derive_core_laws mobile_profile) = [''LAW-001'', ''LAW-002'', ''LAW-003'', ''LAW-004'', ''LAW-005'']
   \<and> map law_principle (derive_core_laws mobile_profile) =
       [''Offline-first: app must work without network'', ''Simple: one tap'',
        ''Secure: keep data safe'', ''Fast: no waiting'', ''Accessible: for all'']
   \<and> generate_principle_checks ''Offline-first: app must work without network'' =
          [''Implementation aligns with principle'', ''Feature works without network connectivity'',
           ''Graceful handling of network failures'']"
proof -
  have a: "5 \<le> length (principles mobile_profile)" by (simp add: mobile_profile_def)
  have b: "contains (lower (principles mobile_profile ! 0)) ''offline''
       \<or> contains (lower (principles mobile_profile ! 0)) ''network''"
    by code_simp
  have c: "principles mobile_profile ! 0 = ''Offline-first: app must work without network''"
    "take 5 (principles mobile_profile) = [''Offline-first: app must work without network'', ''Simple: one tap'',
        ''Secure: keep data safe'', ''Fast: no waiting'', ''Accessible: for all'']"
    by (simp_all add: mobile_profile_def)
  from core_laws_from_principles [OF a b] show ?thesis unfolding c by blast
qed

text \<open>
  C7. Two derivations from the same profile and path, made at different readings of the
  clock, give the same core laws, the same quality gates and the same technical
  requirements; only the time stamps \<open>created\<close> and \<open>last_updated\<close> follow the clock.
\<close>

theorem constitution_deterministic:
  "core_laws (generate_constitution vp path now1) = core_laws (generate_constitution vp path now2)
   \<and> quality_gates (generate_constitution vp path now1) = quality_gates (generate_constitution vp path now2)
   \<and> technical_requirements (create_pr_constitution vp path day1)
       = technical_requirements (create_pr_constitution vp path day2)
   \<and> created (generate_constitution vp path now1) = now1
   \<and> last_updated (create_pr_constitution vp path day1) = day1"
proof -
  have laws: "core_laws (generate_constitution vp path t) = derive_core_laws vp" for t
    by (simp add: generate_constitution_def)
  have gates: "quality_gates (generate_constitution vp path t) = define_quality_gates vp" for t
    by (simp add: generate_constitution_def)
  have reqs: "technical_requirements (create_pr_constitution vp path d)
      = derive_technical_requirements vp" for d
    by (simp add: create_pr_constitution_def)
  have stamps: "created (generate_constitution vp path now1) = now1"
    "last_updated (create_pr_constitution vp path day1) = day1"
    by (simp_all add: generate_constitution_def create_pr_constitution_def)
  show ?thesis
    unfolding laws gates reqs using stamps by simp
qed

section \<open>Properties of the task patterns\<close>

lemma keys_bump:
  "map fst (bump needs k d p) =
     (if k \<in> set (map fst needs) then map fst needs else map fst needs @ [k])"
  by (induction needs k d p rule: bump.induct) auto

lemma count_in_bump:
  "count_in (bump needs k d p) k' = count_in needs k' + (if k' = k then 1 else 0)"
  by (induction needs k d p rule: bump.induct) (auto simp: count_in_def)

lemma count_tasks_ok:
  assumes "\<forall>t \<in> set ts. task_description t \<noteq> None"
  shows "\<exists>needs'. count_tasks needs ts = Inr needs'
     \<and> map fst needs' = first_seen (map fst needs) (map agent_type_of ts)
     \<and> (\<forall>k. count_in needs' k = count_in needs k + count_list (map agent_type_of ts) k)"
  using assms
proof (induction ts arbitrary: needs)
  case Nil
  then show ?case by simp
next
  case (Cons t ts)
  from Cons.prems obtain d where d: "task_description t = Some d" by auto
  let ?b = "bump needs (agent_type_of t) d (points_of t)"
  from Cons.prems have "\<forall>t \<in> set ts. task_description t \<noteq> None" by simp
  from Cons.IH [OF this, of ?b] obtain needs' where
    r: "count_tasks ?b ts = Inr needs'"
       "map fst needs' = first_seen (map fst ?b) (map agent_type_of ts)"
       "\<forall>k. count_in needs' k = count_in ?b k + count_list (map agent_type_of ts) k"
    by blast
  have "count_tasks needs (t # ts) = Inr needs'" using d r(1) by simp
  moreover have "map fst needs' = first_seen (map fst needs) (map agent_type_of (t # ts))"
    using r(2) by (simp add: keys_bump)
  moreover have "\<forall>k. count_in needs' k = count_in needs k + count_list (map agent_type_of (t # ts)) k"
    using r(3) by (auto simp: count_in_bump)
  ultimately show ?case by blast
qed

lemma first_seen_distinct: "distinct seen \<Longrightarrow> distinct (first_seen seen xs)"
  by (induction seen xs rule: first_seen.induct) auto

lemma first_seen_set: "set (first_seen seen xs) = set seen \<union> set xs"
  by (induction seen xs rule: first_seen.induct) auto

lemma count_in_member:
  "distinct (map fst needs) \<Longrightarrow> (k, n) \<in> set needs \<Longrightarrow> count_in needs k = need_count n"
  by (simp add: count_in_def)

lemma count_list_pos: "0 < count_list xs x \<longleftrightarrow> x \<in> set xs"
  by (induction xs) auto

text \<open>
  C8, as stated, fails: with three tasks for the data agent followed by three for the UI
  agent both types are proposed with the same count, and the data agent comes first, while
  the catalog order puts the UI agent before the data agent.
\<close>

theorem analyze_tie_counterexample:
  "analyze_task_patterns tie_tasks =
     Inr \<lparr>suggestions =
           [\<lparr>s_agent_type = ''data-agent'', task_count = 3, avg_complexity = 3,
             sample_tasks = [''Create schema'', ''Add storage layer'', ''Design data model''],
             priority = ''medium''\<rparr>,
            \<lparr>s_agent_type = ''ui-agent'', task_count = 3, avg_complexity = 3,
             sample_tasks = [''Build start screen'', ''Create list view'', ''Add settings screen''],
             priority = ''medium''\<rparr>],
          total_tasks = 6, unique_agent_types = 2\<rparr>"
  by (simp add: analyze_task_patterns_def tie_tasks_def agent_type_of_def points_of_def
      suggest_def sorted_reverse_def)

text \<open>
  C8, amended. For a task list in which every task has a description, the analysis
  returns a result; it proposes an agent for exactly the agent types with at least 3 tasks,
  each once, with the number of its tasks as task count and the priority \<open>high\<close> from 5
  tasks on and \<open>medium\<close> below; the proposals are in descending order of the task count, and
  proposals with the same count are in the order in which their agent types first occur in
  the task list.
\<close>

theorem analyze_task_patterns_order:
  assumes "\<forall>t \<in> set tasks. task_description t \<noteq> None"
  shows "\<exists>r. analyze_task_patterns tasks = Inr r
     \<and> set (map s_agent_type (suggestions r)) = {a. 3 \<le> count_list (map agent_type_of tasks) a}
     \<and> distinct (map s_agent_type (suggestions r))
     \<and> (\<forall>s \<in> set (suggestions r).
           task_count s = count_list (map agent_type_of tasks) (s_agent_type s)
           \<and> priority s = (if 5 \<le> task_count s then ''high'' else ''medium''))
     \<and> sorted_wrt (\<lambda>a b. task_count b \<le> task_count a) (suggestions r)
     \<and> (\<forall>c. map s_agent_type (filter (\<lambda>s. task_count s = c) (suggestions r)) =
             filter (\<lambda>a. count_list (map agent_type_of tasks) a = c \<and> 3 \<le> c)
               (first_seen [] (map agent_type_of tasks)))"
proof -
  let ?types = "map agent_type_of tasks"
  let ?cnt = "count_list ?types"
  from count_tasks_ok [OF assms, of "[]"] obtain needs where
    n: "count_tasks [] tasks = Inr needs" "map fst needs = first_seen [] ?types"
       "\<forall>k. count_in needs k = ?cnt k"
    by (auto simp: count_in_def)
  have dk: "distinct (map fst needs)" unfolding n(2) by (rule first_seen_distinct) simp
  have ks: "set (map fst needs) = set ?types" unfolding n(2) by (simp add: first_seen_set)
  have cn: "need_count (snd kn) = ?cnt (fst kn)" if "kn \<in> set needs" for kn
    using count_in_member [OF dk, of "fst kn" "snd kn"] that n(3) by simp
  let ?un = "map suggest (filter (\<lambda>kn. need_count (snd kn) \<ge> 3) needs)"
  let ?f = "\<lambda>s. - int (task_count s)"
  let ?r = "\<lparr>suggestions = sorted_reverse task_count ?un, total_tasks = length tasks,
             unique_agent_types = length needs\<rparr>"
  have res: "analyze_task_patterns tasks = Inr ?r"
    by (simp add: analyze_task_patterns_def n(1))
  have sg: "suggestions ?r = sort_key ?f ?un" by (simp add: sorted_reverse_def)
  have un_types: "map s_agent_type (filter P ?un) =
      filter (\<lambda>k. P (suggest (k, the (map_of needs k))) \<and> 3 \<le> ?cnt k) (map fst needs)" for P
  proof -
    have "map s_agent_type (filter P ?un) =
        map fst (filter (\<lambda>kn. P (suggest kn) \<and> 3 \<le> need_count (snd kn)) needs)"
      by (simp add: filter_map o_def suggest_def conj_commute)
    also have "filter (\<lambda>kn. P (suggest kn) \<and> 3 \<le> need_count (snd kn)) needs =
        filter (\<lambda>kn. P (suggest (fst kn, the (map_of needs (fst kn)))) \<and> 3 \<le> ?cnt (fst kn)) needs"
    proof (rule filter_cong [OF refl])
      fix kn assume m: "kn \<in> set needs"
      then have "map_of needs (fst kn) = Some (snd kn)" using dk by simp
      then show "(P (suggest kn) \<and> 3 \<le> need_count (snd kn)) =
         (P (suggest (fst kn, the (map_of needs (fst kn)))) \<and> 3 \<le> ?cnt (fst kn))"
        using cn [OF m] by simp
    qed
    also have "map fst \<dots> =
        filter (\<lambda>k. P (suggest (k, the (map_of needs k))) \<and> 3 \<le> ?cnt k) (map fst needs)"
      by (simp add: filter_map o_def)
    finally show ?thesis .
  qed
  have un_all: "map s_agent_type ?un = filter (\<lambda>k. 3 \<le> ?cnt k) (map fst needs)"
    using un_types [of "\<lambda>s. True"] by simp
  have a: "set (map s_agent_type (suggestions ?r)) = {a. 3 \<le> ?cnt a}"
  proof -
    have "set (map s_agent_type (suggestions ?r)) = set (map s_agent_type ?un)"
      unfolding sg by (simp only: set_map set_sort)
    also have "\<dots> = {a \<in> set ?types. 3 \<le> ?cnt a}" by (simp only: un_all set_filter ks)
    also have "\<dots> = {a. 3 \<le> ?cnt a}"
    proof -
      have "a \<in> set ?types" if "3 \<le> ?cnt a" for a
      proof -
        from that have "0 < ?cnt a" by arith
        then show ?thesis by (simp only: count_list_pos)
      qed
      then show ?thesis by blast
    qed
    finally show ?thesis .
  qed
  have du: "distinct (map s_agent_type ?un)" unfolding un_all using dk by simp
  have b: "distinct (map s_agent_type (suggestions ?r))"
    using du unfolding sg by (simp only: distinct_map distinct_sort set_sort)
  have c: "\<forall>s \<in> set (suggestions ?r).
           task_count s = ?cnt (s_agent_type s)
           \<and> priority s = (if 5 \<le> task_count s then ''high'' else ''medium'')"
  proof
    fix s assume "s \<in> set (suggestions ?r)"
    then have "s \<in> set ?un" unfolding sg by simp
    then obtain kn where "kn \<in> set needs" "s = suggest kn" by auto
    then show "task_count s = ?cnt (s_agent_type s)
           \<and> priority s = (if 5 \<le> task_count s then ''high'' else ''medium'')"
      using cn by (simp add: suggest_def)
  qed
  have "sorted (map ?f (sort_key ?f ?un))" by (rule sorted_sort_key)
  then have d: "sorted_wrt (\<lambda>a b. task_count b \<le> task_count a) (suggestions ?r)"
    unfolding sg by (simp add: sorted_map)
  have e: "map s_agent_type (filter (\<lambda>s. task_count s = c) (suggestions ?r)) =
             filter (\<lambda>a. ?cnt a = c \<and> 3 \<le> c) (first_seen [] ?types)" for c
  proof -
    have "filter (\<lambda>s. task_count s = c) (sort_key ?f ?un) = filter (\<lambda>s. ?f s = - int c) (sort_key ?f ?un)"
      by simp
    also have "\<dots> = filter (\<lambda>s. ?f s = - int c) ?un" by (rule sort_key_stable)
    also have "\<dots> = filter (\<lambda>s. task_count s = c) ?un" by simp
    finally have "map s_agent_type (filter (\<lambda>s. task_count s = c) (suggestions ?r))
        = map s_agent_type (filter (\<lambda>s. task_count s = c) ?un)"
      unfolding sg by simp
    also have "\<dots> = filter (\<lambda>k. task_count (suggest (k, the (map_of needs k))) = c \<and> 3 \<le> ?cnt k)
        (map fst needs)"
      by (rule un_types)
    also have "\<dots> = filter (\<lambda>k. ?cnt k = c \<and> 3 \<le> c) (map fst needs)"
    proof (rule filter_cong [OF refl])
      fix k assume "k \<in> set (map fst needs)"
      then obtain nd where m: "(k, nd) \<in> set needs" by auto
      then have "map_of needs k = Some nd" using dk by simp
      then show "(task_count (suggest (k, the (map_of needs k))) = c \<and> 3 \<le> ?cnt k)
          = (?cnt k = c \<and> 3 \<le> c)"
        using cn [OF m] by (auto simp: suggest_def)
    qed
    finally show ?thesis unfolding n(2) .
  qed
  from res a b c d e show ?thesis by blast
qed


theorem analyze_task_patterns_order_witness:
  "\<exists>r. analyze_task_patterns tie_tasks = Inr r
     \<and> set (map s_agent_type (suggestions r)) = {a. 3 \<le> count_list (map agent_type_of tie_tasks) a}
     \<and> sorted_wrt (\<lambda>a b. task_count b \<le> task_count a) (suggestions r)
     \<and> map s_agent_type (filter (\<lambda>s. task_count s = 3) (suggestions r)) =
             filter (\<lambda>a. count_list (map agent_type_of tie_tasks) a = 3 \<and> (3::nat) \<le> 3)
               (first_seen [] (map agent_type_of tie_tasks))"
proof -
  have h: "\<forall>t \<in> set tie_tasks. task_description t \<noteq> None"
    by (simp add: tie_tasks_def)
  from analyze_task_patterns_order [OF h] show ?thesis by blast
qed

section \<open>Properties of the list items\<close>

lemma digit_not_dot: "isdigit c \<Longrightarrow> \<not> is_dot c"
  by (auto simp: isdigit_def is_dot_def code_def)

lemma digit_not_bullet: "isdigit c \<Longrightarrow> \<not> bullet_class c"
  by (auto simp: isdigit_def bullet_class_def code_def)

lemma startswith_dot: "startswith s ''.'' \<longleftrightarrow> (\<exists>t. s = CHR ''.'' # t)"
  by (cases s) auto

lemma has_ordinal_tl: "has_ordinal cs \<Longrightarrow> has_ordinal (c # cs)"
  by (cases cs) auto

lemma has_ordinal_drop: "has_ordinal (drop j s) \<Longrightarrow> has_ordinal s"
proof (induction s arbitrary: j)
  case Nil
  then show ?case by simp
next
  case (Cons c cs)
  then show ?case by (cases j) (auto intro: has_ordinal_tl)
qed

lemma has_ordinal_at:
  "Suc i < length s \<Longrightarrow> isdigit (s ! i) \<Longrightarrow> s ! Suc i = CHR ''.'' \<Longrightarrow> has_ordinal s"
proof (induction s arbitrary: i rule: has_ordinal.induct)
  case (1 a b cs)
  then show ?case by (cases i) auto
qed auto

lemma concat_map_single: "concat (map (\<lambda>x. [x]) xs) = xs"
  by (induction xs) auto

lemma rx_run_Eps_fun: "rx_run Eps = (\<lambda>st. [st])"
  by (rule ext) simp

lemma rx_run_Eps_tail: "rx_run (Cat a Eps) st = rx_run a st"
  by (simp only: rx_run.simps(3) rx_run_Eps_fun concat_map_single)

lemma rep_run:
  "rx_run (Rep P lo None True) (n, s, g)
     = map (\<lambda>k. (n + k, drop k s, g)) (rev [lo ..< Suc (length (takeWhile P s))])"
  by (simp add: Let_def del: upt_Suc)

lemma spaces_run_hd:
  "\<exists>rs. rx_run (Cat (Rep isspace 0 None True) Eps) (n, s, g)
     = (n + length (takeWhile isspace s), dropWhile isspace s, g) # rs"
proof -
  let ?m = "length (takeWhile isspace s)"
  have "rx_run (Cat (Rep isspace 0 None True) Eps) (n, s, g)
      = map (\<lambda>k. (n + k, drop k s, g)) (rev [0 ..< Suc ?m])"
    by (simp only: rx_run_Eps_tail rep_run)
  also have "rev [0 ..< Suc ?m] = ?m # rev [0 ..< ?m]" by simp
  finally show ?thesis by (simp add: dropWhile_eq_drop)
qed

lemma digits_dot_run:
  "rx_run (Cat (Rep isdigit 1 None True) (Cat (Cls is_dot) R)) (n, s, g) =
     (let k = length (takeWhile isdigit s)
      in if 0 < k \<and> startswith (drop k s) ''.'' then rx_run R (Suc (n + k), drop (Suc k) s, g) else [])"
proof -
  define k where "k = length (takeWhile isdigit s)"
  define f where "f = rx_run (Cat (Cls is_dot) R)"
  define st where "st = (\<lambda>j. (n + j, drop j s, g))"
  define whole where "whole = rx_run (Cat (Rep isdigit 1 None True) (Cat (Cls is_dot) R)) (n, s, g)"
  have run: "whole = concat (map f (map st (rev [1 ..< Suc k])))"
    unfolding whole_def f_def st_def k_def
    by (simp only: rx_run.simps(3) [of "Rep isdigit 1 None True"] rep_run)
  have inner: "f (st j) = []" if "j < k" for j
  proof -
    from that have "j < length s" using length_takeWhile_le [of isdigit s] unfolding k_def by arith
    then have d: "drop j s = s ! j # drop (Suc j) s" by (simp add: Cons_nth_drop_Suc)
    have "takeWhile isdigit s ! j \<in> set (takeWhile isdigit s)" using that unfolding k_def by simp
    then have "isdigit (takeWhile isdigit s ! j)" by (rule set_takeWhileD [THEN conjunct2])
    then have "isdigit (s ! j)" using that unfolding k_def by (simp add: takeWhile_nth)
    then show ?thesis using d digit_not_dot unfolding f_def st_def by simp
  qed
  have last: "f (st k) = (if startswith (drop k s) ''.'' then rx_run R (Suc (n + k), drop (Suc k) s, g) else [])"
  proof (cases "drop k s")
    case Nil
    then show ?thesis unfolding f_def st_def by simp
  next
    case (Cons c cs)
    then have "cs = drop (Suc k) s" by (metis drop_Suc drop_drop list.sel(3) tl_drop plus_1_eq_Suc)
    with Cons show ?thesis unfolding f_def st_def by (auto simp: is_dot_def)
  qed
  have "whole = (if 0 < k \<and> startswith (drop k s) ''.'' then rx_run R (Suc (n + k), drop (Suc k) s, g) else [])"
  proof (cases "0 < k")
    case False
    then have "whole = []" unfolding run by simp
    with False show ?thesis by simp
  next
    case True
    then have "rev [1 ..< Suc k] = k # rev [1 ..< k]" by (simp add: Suc_le_eq)
    then have "whole = f (st k) @ concat (map f (map st (rev [1 ..< k])))"
      unfolding run by simp
    also have "concat (map f (map st (rev [1 ..< k]))) = []"
    proof -
      have "x = []" if "x \<in> set (map f (map st (rev [1 ..< k])))" for x
      proof -
        from that obtain j where "j \<in> set (rev [1 ..< k])" "x = f (st j)"
          unfolding set_map by blast
        then show ?thesis using inner [of j] by simp
      qed
      then show ?thesis unfolding concat_eq_Nil_conv by blast
    qed
    finally have "whole = f (st k)" by simp
    with True show ?thesis unfolding last by simp
  qed
  then show ?thesis unfolding whole_def k_def by (simp only: Let_def)
qed

lemma ordinal_rx_shape:
  "ordinal_rx = Cat Bos (Cat (Rep isdigit 1 None True) (Cat (Cls is_dot) Eps))"
  by (simp add: ordinal_rx_def seq_def)

lemma marker_rx_shape:
  "marker_rx =
     Alt (Cat Bos (Cat (Cls bullet_class) (Cat (Rep isspace 0 None True) Eps)))
         (Cat (Rep isdigit 1 None True) (Cat (Cls is_dot) (Cat (Rep isspace 0 None True) Eps)))"
  by (simp add: marker_rx_def seq_def)

lemma bos_run: "rx_run (Cat Bos X) (n, s, g) = (if n = 0 then rx_run X (n, s, g) else [])"
  by simp

lemma ordinal_match:
  "re_match ordinal_rx line \<noteq> None \<longleftrightarrow>
     0 < length (takeWhile isdigit line) \<and> startswith (drop (length (takeWhile isdigit line)) line) ''.''"
proof -
  have "rx_run ordinal_rx (0, line, []) =
      rx_run (Cat (Rep isdigit 1 None True) (Cat (Cls is_dot) Eps)) (0, line, [])"
    by (simp only: ordinal_rx_shape bos_run simp_thms if_True)
  also have "\<dots> = (if 0 < length (takeWhile isdigit line)
        \<and> startswith (drop (length (takeWhile isdigit line)) line) ''.''
      then [(Suc (0 + length (takeWhile isdigit line)), drop (Suc (length (takeWhile isdigit line))) line, [])]
      else [])"
    by (simp only: digits_dot_run Let_def rx_run.simps(9))
  finally show ?thesis by (simp add: re_match_def split: list.splits)
qed

lemma is_list_line_iff: "is_list_line line \<longleftrightarrow> marker_length line \<noteq> None"
  unfolding is_list_line_def ordinal_match marker_length_def by (simp add: Let_def)

lemma digits_dot_has_ordinal:
  assumes "0 < length (takeWhile isdigit s)"
    and "startswith (drop (length (takeWhile isdigit s)) s) ''.''"
  shows "has_ordinal s"
proof -
  define k where "k = length (takeWhile isdigit s)"
  from assms(2) obtain t where t: "drop k s = CHR ''.'' # t"
    unfolding k_def startswith_dot by blast
  then have kl: "k < length s" by (metis drop_all list.distinct(1) not_le)
  from t have dot: "s ! k = CHR ''.''" by (metis kl Cons_nth_drop_Suc list.inject)
  from assms(1) have "k - 1 < length (takeWhile isdigit s)" unfolding k_def by simp
  then have "takeWhile isdigit s ! (k - 1) \<in> set (takeWhile isdigit s)"
    and e: "takeWhile isdigit s ! (k - 1) = s ! (k - 1)"
    by (rule nth_mem, rule takeWhile_nth)
  then have dg: "isdigit (s ! (k - 1))" using set_takeWhileD by metis
  from assms(1) have "Suc (k - 1) = k" unfolding k_def by simp
  with has_ordinal_at [of "k - 1" s] kl dg dot show ?thesis by simp
qed

lemma marker_no_match:
  assumes "0 < n" "\<not> has_ordinal s"
  shows "rx_run marker_rx (n, s, g) = []"
proof -
  have "rx_run marker_rx (n, s, g) =
      rx_run (Cat (Rep isdigit 1 None True) (Cat (Cls is_dot) (Cat (Rep isspace 0 None True) Eps))) (n, s, g)"
    using assms(1)
    by (simp only: marker_rx_shape rx_run.simps(4) bos_run) simp
  also have "\<dots> = []"
    using assms(2) digits_dot_has_ordinal [of s] by (simp only: digits_dot_run Let_def) auto
  finally show ?thesis .
qed

lemma marker_first_bullet:
  assumes "c = CHR ''-'' \<or> c = CHR ''*''"
  shows "\<exists>s' g' rs. rx_run marker_rx (0, c # cs, []) =
           (Suc (length (takeWhile isspace cs)), s', g') # rs"
proof -
  from assms have bc: "bullet_class c" by (auto simp: bullet_class_def)
  obtain rs where rs: "rx_run (Cat (Rep isspace 0 None True) Eps) (Suc 0, cs, [])
     = (Suc 0 + length (takeWhile isspace cs), dropWhile isspace cs, []) # rs"
    using spaces_run_hd by blast
  have "rx_run (Cat Bos (Cat (Cls bullet_class) (Cat (Rep isspace 0 None True) Eps))) (0, c # cs, [])
      = rx_run (Cat (Rep isspace 0 None True) Eps) (Suc 0, cs, [])"
    using bc by (simp only: bos_run if_True rx_run.simps(3) [of "Cls bullet_class"]) simp
  with rs show ?thesis
    by (simp only: marker_rx_shape rx_run.simps(4)) simp
qed

lemma marker_first_ordinal:
  assumes "\<not> bullet_class c"
    and "0 < length (takeWhile isdigit (c # cs))"
    and "startswith (drop (length (takeWhile isdigit (c # cs))) (c # cs)) ''.''"
  shows "\<exists>s' g' rs. rx_run marker_rx (0, c # cs, []) =
           (Suc (length (takeWhile isdigit (c # cs)))
              + length (takeWhile isspace (drop (Suc (length (takeWhile isdigit (c # cs)))) (c # cs))), s', g') # rs"
proof -
  define k where "k = length (takeWhile isdigit (c # cs))"
  obtain rs where rs: "rx_run (Cat (Rep isspace 0 None True) Eps) (Suc (0 + k), drop (Suc k) (c # cs), [])
     = (Suc (0 + k) + length (takeWhile isspace (drop (Suc k) (c # cs))),
        dropWhile isspace (drop (Suc k) (c # cs)), []) # rs"
    using spaces_run_hd by blast
  have a1: "rx_run (Cat Bos (Cat (Cls bullet_class) (Cat (Rep isspace 0 None True) Eps))) (0, c # cs, []) = []"
    using assms(1) by (simp only: bos_run if_True rx_run.simps(3) [of "Cls bullet_class"]) simp
  have a2: "rx_run (Cat (Rep isdigit 1 None True) (Cat (Cls is_dot) (Cat (Rep isspace 0 None True) Eps))) (0, c # cs, [])
      = rx_run (Cat (Rep isspace 0 None True) Eps) (Suc (0 + k), drop (Suc k) (c # cs), [])"
    using assms(2,3) unfolding k_def by (simp only: digits_dot_run Let_def) simp
  have "rx_run marker_rx (0, c # cs, []) =
      rx_run (Cat (Rep isspace 0 None True) Eps) (Suc (0 + k), drop (Suc k) (c # cs), [])"
    by (simp only: marker_rx_shape rx_run.simps(4) a1 a2 append_Nil)
  with rs show ?thesis unfolding k_def by simp
qed

lemma sub_from_skip: "sub_from p n k s = sub_from p (n + k) 0 (drop k s)"
proof (induction s arbitrary: n k)
  case Nil
  then show ?case by simp
next
  case (Cons c cs)
  show ?case
  proof (cases k)
    case 0
    then show ?thesis by simp
  next
    case (Suc k')
    with Cons.IH [of "Suc n" k'] show ?thesis by simp
  qed
qed

lemma sub_from_plain:
  "0 < n \<Longrightarrow> \<not> has_ordinal s \<Longrightarrow> sub_from marker_rx n 0 s = s"
proof (induction s arbitrary: n)
  case Nil
  then show ?case by simp
next
  case (Cons c cs)
  from Cons.prems have "rx_run marker_rx (n, c # cs, []) = []" by (rule marker_no_match)
  moreover from Cons.prems(2) have "\<not> has_ordinal cs" using has_ordinal_tl by blast
  ultimately show ?case using Cons.IH [of "Suc n"] by simp
qed

lemma sub_from_first:
  assumes "rx_run marker_rx (0, c # cs, []) = (n', s', g') # rs" "0 < n'"
    and "\<not> has_ordinal (drop n' (c # cs))"
  shows "re_sub_empty marker_rx (c # cs) = drop n' (c # cs)"
proof -
  from assms(2) obtain m where m: "n' = Suc m" by (cases n') auto
  have "re_sub_empty marker_rx (c # cs) = sub_from marker_rx (Suc 0) m cs"
    using assms(1) m by (simp add: re_sub_empty_def)
  also have "\<dots> = sub_from marker_rx (Suc m) 0 (drop m cs)"
    using sub_from_skip [of marker_rx "Suc 0" m cs] by simp
  also have "\<dots> = drop m cs"
    using assms(3) m by (intro sub_from_plain) simp_all
  finally show ?thesis using m by simp
qed

lemma sub_marker:
  assumes "marker_length line = Some K" "\<not> has_ordinal (drop K line)"
  shows "re_sub_empty marker_rx line = lstrip (drop K line)"
proof -
  define m where "m = length (takeWhile isspace (drop K line))"
  have "drop (K + m) line = drop m (drop K line)" by (simp add: add.commute)
  then have no: "\<not> has_ordinal (drop (K + m) line)"
    using assms(2) has_ordinal_drop by metis
  have fin: "drop (K + m) line = lstrip (drop K line)"
    unfolding m_def lstrip_def by (simp add: dropWhile_eq_drop add.commute)
  from assms(1) obtain c cs where line: "line = c # cs"
    by (cases line) (auto simp: marker_length_def Let_def split: if_splits)
  show ?thesis
  proof (cases "c = CHR ''-'' \<or> c = CHR ''*''")
    case True
    then have K: "K = 1" using assms(1) line by (auto simp: marker_length_def)
    from marker_first_bullet [OF True, of cs] obtain s' g' rs where
      "rx_run marker_rx (0, c # cs, []) = (Suc (length (takeWhile isspace cs)), s', g') # rs"
      by blast
    moreover have "Suc (length (takeWhile isspace cs)) = K + m"
      unfolding m_def K line by simp
    ultimately have "re_sub_empty marker_rx (c # cs) = drop (K + m) (c # cs)"
      using sub_from_first [of c cs "K + m" s' g' rs] no line K by simp
    then show ?thesis using fin line by simp
  next
    case False
    define k where "k = length (takeWhile isdigit line)"
    from False assms(1) line have ml: "0 < k" "startswith (drop k line) ''.''" "K = Suc k"
      unfolding k_def by (auto simp: marker_length_def Let_def split: if_splits)
    from ml(1) have "isdigit c" unfolding k_def line by (auto split: if_splits)
    then have nb: "\<not> bullet_class c" by (rule digit_not_bullet)
    from marker_first_ordinal [OF nb] ml(1,2) obtain s' g' rs where
      "rx_run marker_rx (0, c # cs, []) = (K + m, s', g') # rs"
      unfolding k_def m_def line ml(3) by blast
    then have "re_sub_empty marker_rx (c # cs) = drop (K + m) (c # cs)"
      using sub_from_first [of c cs "K + m" s' g' rs] no line ml(3) by simp
    then show ?thesis using fin line by simp
  qed
qed

lemma line_items_plain:
  assumes "plain_line raw"
  shows "line_items raw = (case listed_item raw of None \<Rightarrow> [] | Some item \<Rightarrow> [item])"
proof (cases "marker_length (strip raw)")
  case None
  then show ?thesis by (simp add: line_items_def listed_item_def is_list_line_iff)
next
  case (Some K)
  with assms have "\<not> has_ordinal (drop K (strip raw))" by (simp add: plain_line_def)
  from sub_marker [OF Some this] Some show ?thesis
    by (auto simp: line_items_def listed_item_def is_list_line_iff Let_def)
qed

lemma concat_line_items:
  "\<forall>raw \<in> set raws. plain_line raw \<Longrightarrow>
     concat (map line_items raws) = List.map_filter listed_item raws"
proof (induction raws)
  case Nil
  then show ?case by (simp add: map_filter_simps)
next
  case (Cons raw raws)
  then show ?case by (simp add: line_items_plain map_filter_simps split: option.splits)
qed

lemma split_acc_nonempty: "split_acc acc s sep \<noteq> []"
  by (induction acc s sep rule: split_acc.induct) auto

lemma join_Cons: "rest \<noteq> [] \<Longrightarrow> join sep (x # rest) = x @ sep @ join sep rest"
  by (cases rest) auto

lemma split_acc_join:
  "join ''\<newline>'' (split_acc acc s ''\<newline>'') = rev acc @ s"
proof (induction acc s "''\<newline>''" rule: split_acc.induct)
  case (1 acc)
  then show ?case by simp
next
  case (2 acc c cs)
  show ?case
  proof (cases "c = CHR ''\<newline>''")
    case True
    with 2 show ?thesis by (simp add: join_Cons split_acc_nonempty)
  next
    case False
    with 2 show ?thesis by simp
  qed
qed

lemma split_acc_lines:
  "CHR ''\<newline>'' \<notin> set acc \<Longrightarrow> \<forall>l \<in> set (split_acc acc s ''\<newline>''). CHR ''\<newline>'' \<notin> set l"
proof (induction acc s "''\<newline>''" rule: split_acc.induct)
  case (1 acc)
  then show ?case by simp
next
  case (2 acc c cs)
  show ?case
  proof (cases "c = CHR ''\<newline>''")
    case True
    with 2 show ?thesis by simp
  next
    case False
    with 2 show ?thesis by simp
  qed
qed

text \<open>
  C6, as stated, fails: a bullet line whose content has exactly 5 characters yields no
  item; a content of 6 characters is the shortest that is kept.
\<close>

theorem extract_list_items_five_counterexample:
  "length ''abcde'' = 5 \<and> extract_list_items ''- abcde'' = []
     \<and> extract_list_items ''- abcdef'' = [''abcdef'']"
  by code_simp

text \<open>
  C6, amended. The statement is about the texts of the model, whose characters are the
  code points 0..255. In such a text no line begins with the bullet glyph, neither as
  U+2022 nor in the form in which the source stores it (U+201A, U+00C4, U+00A2), so of the
  markers of the claim only \<open>-\<close>, \<open>*\<close> and the numeric ordinal can occur; what the code
  does with a line that begins with the glyph is neither stated nor denied here.

  For every such text whose lines are all plain, the extraction returns, in the order of
  the lines, the item of each line that after trimming begins with a marker: the trimmed
  line without the marker and the white space behind it. Items of 5 or fewer characters
  are discarded. The lines are the pieces of the text between its line feeds.
\<close>

theorem extract_list_items_plain:
  assumes "\<forall>raw \<in> set (split content ''\<newline>''). plain_line raw"
  shows "extract_list_items content = List.map_filter listed_item (split content ''\<newline>'')
     \<and> join ''\<newline>'' (split content ''\<newline>'') = content
     \<and> (\<forall>raw \<in> set (split content ''\<newline>''). CHR ''\<newline>'' \<notin> set raw)"
proof -
  have "extract_list_items content = List.map_filter listed_item (split content ''\<newline>'')"
    unfolding extract_list_items_def using assms by (rule concat_line_items)
  moreover have "join ''\<newline>'' (split content ''\<newline>'') = content"
    by (simp add: split_def split_acc_join)
  moreover have "\<forall>raw \<in> set (split content ''\<newline>''). CHR ''\<newline>'' \<notin> set raw"
    unfolding split_def by (rule split_acc_lines) simp
  ultimately show ?thesis by blast
qed

theorem extract_list_items_plain_witness:
  "extract_list_items ''Goals for v1.0:\<newline>- Works offline always \<newline>  2. Fast sync\<newline>* tiny\<newline>- abcdef''
     = [''Works offline always'', ''Fast sync'', ''abcdef'']"
proof -
  let ?c = "''Goals for v1.0:\<newline>- Works offline always \<newline>  2. Fast sync\<newline>* tiny\<newline>- abcdef''"
  have h: "\<forall>raw \<in> set (split ?c ''\<newline>''). plain_line raw"
    by code_simp
  have v: "List.map_filter listed_item (split ?c ''\<newline>'')
      = [''Works offline always'', ''Fast sync'', ''abcdef'']"
    by code_simp
  from extract_list_items_plain [OF h] v show ?thesis by simp
qed

end
